theory Spec2Isabelle
  imports Main "HOL-Library.AList"
begin

section \<open>JavaScript values\<close>

text \<open>
  The payload type \<open>T\<close> of \<open>Tree<T>\<close> is caller-defined.  Payloads and serialized
  records are modelled as JSON-like JavaScript values.  An object is the list of its own
  enumerable properties in property order; an array is the list of its elements.
  Numbers that occur in payloads are integers here.
\<close>

datatype jv =
    JUndefined
  | JNull
  | JBool bool
  | JNum int
  | JStr string
  | JArr "jv list"
  | JObj "(string \<times> jv) list"

datatype error = TypeError

text \<open>Decimal rendering of a number, as \<open>Number.prototype.toString\<close> gives it for
  integers; \<open>None\<close> stands for \<open>NaN\<close>.  JavaScript numbers are IEEE doubles, on which
  integer arithmetic is exact below \<open>2^53\<close>; the segments of a key count the children of
  one node, so they are modelled as unbounded integers.\<close>

type_synonym number = "int option"

definition digit_char :: "nat \<Rightarrow> char" where
  "digit_char d = char_of (48 + d)"

fun show_nat :: "nat \<Rightarrow> string" where
  "show_nat n = (if n < 10 then [digit_char n] else show_nat (n div 10) @ [digit_char (n mod 10)])"

declare show_nat.simps [simp del]

definition number_toString :: "number \<Rightarrow> string" where
  "number_toString x =
     (case x of
        None \<Rightarrow> ''NaN''
      | Some i \<Rightarrow> if i < 0 then CHR ''-'' # show_nat (nat (- i)) else show_nat (nat i))"

text \<open>\<open>parseInt(s, 10)\<close>: leading white space is skipped, one sign is read, and the
  longest run of decimal digits that follows is the value; with no digit the result is
  \<open>NaN\<close>.\<close>

definition is_digit :: "char \<Rightarrow> bool" where
  "is_digit c = (48 \<le> (of_char c :: nat) \<and> (of_char c :: nat) \<le> 57)"

definition is_space :: "char \<Rightarrow> bool" where
  "is_space c = ((of_char c :: nat) \<in> {9, 10, 11, 12, 13, 32})"

definition digits_value :: "string \<Rightarrow> nat" where
  "digits_value s = foldl (\<lambda>acc c. 10 * acc + ((of_char c :: nat) - 48)) 0 s"

definition parseInt10 :: "string \<Rightarrow> number" where
  "parseInt10 s =
     (let t = dropWhile is_space s;
          neg = (case t of [] \<Rightarrow> False | c # _ \<Rightarrow> c = CHR ''-'');
          u = (case t of [] \<Rightarrow> [] | c # cs \<Rightarrow> if c = CHR ''-'' \<or> c = CHR ''+'' then cs else t);
          z = takeWhile is_digit u
      in if z = [] then None
         else Some (if neg then - int (digits_value z) else int (digits_value z)))"

text \<open>\<open>s.split(".")\<close> and \<open>a.join(".")\<close>.\<close>

fun split_dot :: "string \<Rightarrow> string list" where
  "split_dot [] = [[]]"
| "split_dot (c # cs) =
     (if c = CHR ''.'' then [] # split_dot cs
      else (case split_dot cs of [] \<Rightarrow> [[c]] | w # ws \<Rightarrow> (c # w) # ws))"

fun join_dot :: "string list \<Rightarrow> string" where
  "join_dot [] = []"
| "join_dot [s] = s"
| "join_dot (s # t # ss) = s @ CHR ''.'' # join_dot (t # ss)"

text \<open>The postfix \<open>++\<close> on an array element.\<close>

definition incr :: "number \<Rightarrow> number" where
  "incr x = map_option (\<lambda>i. i + 1) x"

text \<open>Own enumerable properties of a value, as object spread \<open>{...v}\<close> copies them;
  property read \<open>v[k]\<close>, which throws on \<open>null\<close> and \<open>undefined\<close>; and truthiness.
  Inherited methods are not values of \<open>jv\<close> and are read as \<open>undefined\<close>.\<close>

fun own_props :: "jv \<Rightarrow> (string \<times> jv) list" where
  "own_props (JObj fs) = fs"
| "own_props (JArr xs) = zip (map show_nat [0..<length xs]) xs"
| "own_props (JStr s) = zip (map show_nat [0..<length s]) (map (\<lambda>c. JStr [c]) s)"
| "own_props _ = []"

fun get_prop :: "jv \<Rightarrow> string \<Rightarrow> error + jv" where
  "get_prop JUndefined k = Inl TypeError"
| "get_prop JNull k = Inl TypeError"
| "get_prop (JArr xs) k =
     (case map_of (own_props (JArr xs)) k of
        Some v \<Rightarrow> Inr v
      | None \<Rightarrow> if k = ''length'' then Inr (JNum (int (length xs))) else Inr JUndefined)"
| "get_prop (JStr s) k =
     (case map_of (own_props (JStr s)) k of
        Some v \<Rightarrow> Inr v
      | None \<Rightarrow> if k = ''length'' then Inr (JNum (int (length s))) else Inr JUndefined)"
| "get_prop v k =
     (case map_of (own_props v) k of Some x \<Rightarrow> Inr x | None \<Rightarrow> Inr JUndefined)"

fun truthy :: "jv \<Rightarrow> bool" where
  "truthy JUndefined = False"
| "truthy JNull = False"
| "truthy (JBool b) = b"
| "truthy (JNum n) = (n \<noteq> 0)"
| "truthy (JStr s) = (s \<noteq> [])"
| "truthy (JArr xs) = True"
| "truthy (JObj fs) = True"

section \<open>Nodes and the store\<close>

text \<open>
  A \<open>Tree\<close> object is a mutable cell that other cells point to (\<open>parent\<close>, the values of
  \<open>children\<close>), so the objects live in a store: a list of cells, a reference being an
  index into it, and \<open>new\<close> allocating at the end.  The optional fields \<open>children\<close> and
  \<open>parent\<close> are \<open>None\<close> while unset.  The \<open>children\<close> object is the list of its
  entries in property order: keys of the form \<open>a.b\<close> are not array indices, so that order
  is insertion order, and assigning to a key keeps the position of an entry that exists
  and adds a new entry last (\<open>AList.update\<close>).
\<close>

type_synonym ref = nat

record node =
  key :: string
  children :: "(string \<times> ref) list option"
  data :: jv
  parent :: "ref option"

type_synonym heap = "node list"

text \<open>\<open>getNextChildKey\<close> (src/Tree.ts, lines 165 to 175).\<close>

definition getNextChildKey :: "heap \<Rightarrow> ref \<Rightarrow> string" where
  "getNextChildKey h this =
     (case children (h ! this) of
        None \<Rightarrow> key (h ! this) @ ''.0''
      | Some cs \<Rightarrow>
          if length (map fst cs) = 0 then key (h ! this) @ ''.0''
          else
            (let childKeys = map fst cs;
                 lastKey = childKeys ! (length childKeys - 1);
                 keyArray = map parseInt10 (split_dot lastKey);
                 keyArray' = keyArray[length keyArray - 1 := incr (keyArray ! (length keyArray - 1))]
             in join_dot (map number_toString keyArray')))"

text \<open>The constructor (src/Tree.ts, lines 14 to 29).  \<open>construct_children\<close> is the
  \<open>forEach\<close> loop over \<open>props.children\<close>; calling \<open>forEach\<close> on a truthy value that is
  not an array throws.\<close>

definition set_child :: "ref \<Rightarrow> string \<Rightarrow> ref \<Rightarrow> heap \<Rightarrow> error + heap" where
  "set_child this k c h =
     (case children (h ! this) of
        None \<Rightarrow> Inl TypeError
      | Some cs \<Rightarrow> Inr (h[this := (h ! this)\<lparr>children := Some (AList.update k c cs)\<rparr>]))"

function construct :: "jv \<Rightarrow> ref option \<Rightarrow> heap \<Rightarrow> error + (ref \<times> heap)"
  and construct_children :: "jv list \<Rightarrow> ref \<Rightarrow> heap \<Rightarrow> error + heap"
where
  "construct props par h =
     (let this = length h;
          k = (case par of Some p \<Rightarrow> getNextChildKey h p | None \<Rightarrow> ''0'');
          h1 = h @ [\<lparr>key = k, children = None, data = props, parent = par\<rparr>]
      in case get_prop props ''children'' of
           Inl e \<Rightarrow> Inl e
         | Inr c \<Rightarrow>
             if truthy c then
               (case c of
                  JArr cs \<Rightarrow>
                    (case construct_children cs this
                            (h1[this := (h1 ! this)\<lparr>children := Some []\<rparr>]) of
                       Inl e \<Rightarrow> Inl e
                     | Inr h2 \<Rightarrow> Inr (this, h2))
                | _ \<Rightarrow> Inl TypeError)
             else Inr (this, h1))"
| "construct_children [] this h = Inr h"
| "construct_children (child # rest) this h =
     (case construct child (Some this) h of
        Inl e \<Rightarrow> Inl e
      | Inr (newChild, h') \<Rightarrow>
          (case set_child this (key (h' ! newChild)) newChild h' of
             Inl e \<Rightarrow> Inl e
           | Inr h'' \<Rightarrow> construct_children rest this h''))"
  by pat_completeness auto

termination
proof -
  have sz: "size_list size cs < size v" if g: "get_prop v k = Inr (JArr cs)" for v k cs
  proof (cases v)
    case (JObj fs)
    have "map_of fs k = Some x \<Longrightarrow> size x < Suc (size_list (size_prod (\<lambda>x. 0) size) fs)" for x
      by (induction fs) (auto split: if_splits)
    with JObj g show ?thesis
      by (fastforce split: option.splits)
  next
    case (JArr xs)
    have "x \<in> set xs \<Longrightarrow> size x < Suc (size_list size xs)" for x
      by (induction xs) auto
    with JArr g show ?thesis
      by (fastforce split: option.splits if_splits dest!: map_of_SomeD set_zip_rightD)
  next
    case (JStr s)
    with g show ?thesis
      by (auto split: option.splits if_splits dest!: map_of_SomeD set_zip_rightD)
  qed (use g in auto)
  show ?thesis
    by (relation "measure (\<lambda>x. case x of
                      Inl (props, par, h) \<Rightarrow> size props
                    | Inr (cs, this, h) \<Rightarrow> size_list size cs)")
       (auto dest: sz)
qed

text \<open>\<open>appendChild\<close> (src/Tree.ts, lines 155 to 163).\<close>

definition appendChild :: "jv \<Rightarrow> ref \<Rightarrow> heap \<Rightarrow> error + (ref \<times> heap)" where
  "appendChild nodeData this h =
     (case construct nodeData (Some this) h of
        Inl e \<Rightarrow> Inl e
      | Inr (childNode, h') \<Rightarrow>
          (case children (h' ! this) of
             Some cs \<Rightarrow>
               Inr (childNode,
                    h'[this := (h' ! this)\<lparr>children :=
                         Some (AList.update (key (h' ! childNode)) childNode cs)\<rparr>])
           | None \<Rightarrow>
               Inr (childNode,
                    h'[this := (h' ! this)\<lparr>children :=
                         Some [(key (h' ! childNode), childNode)]\<rparr>])))"

section \<open>Computed views\<close>

text \<open>\<open>childrenList\<close> (lines 68 to 73): \<open>Object.values\<close> of the children object.\<close>

definition childrenList :: "heap \<Rightarrow> ref \<Rightarrow> ref list" where
  "childrenList h this =
     (case children (h ! this) of None \<Rightarrow> [] | Some cs \<Rightarrow> map snd cs)"

text \<open>\<open>descendants\<close> (lines 85 to 95) calls itself on every child.  Nothing in the code
  bounds that recursion on a store with a cycle, so the model takes fuel: \<open>None\<close> is a
  computation that does not return within it.\<close>

fun descendants :: "nat \<Rightarrow> heap \<Rightarrow> ref \<Rightarrow> ref list option" where
  "descendants 0 h this = None"
| "descendants (Suc n) h this =
     (case children (h ! this) of
        None \<Rightarrow> Some []
      | Some cs \<Rightarrow>
          foldl (\<lambda>acc child.
                   case acc of
                     None \<Rightarrow> None
                   | Some ds \<Rightarrow>
                       (case descendants n h child of
                          None \<Rightarrow> None
                        | Some cd \<Rightarrow> Some ((ds @ [child]) @ cd)))
                (Some []) (map snd cs))"

text \<open>\<open>ancestors\<close> (lines 75 to 83): a \<open>while\<close> loop up the parent links.\<close>

partial_function (option) ancestors_loop :: "heap \<Rightarrow> ref \<Rightarrow> ref list \<Rightarrow> ref list option" where
  "ancestors_loop h node acc =
     (case parent (h ! node) of
        None \<Rightarrow> Some acc
      | Some p \<Rightarrow> ancestors_loop h p (acc @ [p]))"

definition ancestors :: "heap \<Rightarrow> ref \<Rightarrow> ref list option" where
  "ancestors h this = ancestors_loop h this []"

text \<open>\<open>isRoot\<close> (lines 40 to 42), \<open>depth\<close> (lines 47 to 55) and \<open>rootNode\<close> (lines 60
  to 66); the last two are \<open>while\<close> loops up the parent links, as \<open>ancestors\<close> is.\<close>

definition isRoot :: "heap \<Rightarrow> ref \<Rightarrow> bool" where
  "isRoot h this = (parent (h ! this) = None)"

partial_function (option) depth_loop :: "heap \<Rightarrow> ref \<Rightarrow> int \<Rightarrow> int option" where
  "depth_loop h node depth =
     (case parent (h ! node) of
        None \<Rightarrow> Some depth
      | Some p \<Rightarrow> depth_loop h p (depth + 1))"

definition depth :: "heap \<Rightarrow> ref \<Rightarrow> int option" where
  "depth h this = depth_loop h this 0"

partial_function (option) rootNode_loop :: "heap \<Rightarrow> ref \<Rightarrow> ref option" where
  "rootNode_loop h node =
     (case parent (h ! node) of
        None \<Rightarrow> Some node
      | Some p \<Rightarrow> rootNode_loop h p)"

definition rootNode :: "heap \<Rightarrow> ref \<Rightarrow> ref option" where
  "rootNode h this = rootNode_loop h this"

text \<open>\<open>siblings\<close> (lines 97 to 104): the empty array for a node without parent,
  otherwise a copy of the parent's children object (\<open>Object.assign\<close> copies nothing from
  \<open>undefined\<close>) from which the node's own key is deleted.\<close>

definition siblings :: "heap \<Rightarrow> ref \<Rightarrow> (string \<times> ref) list option" where
  "siblings h this =
     (case parent (h ! this) of
        None \<Rightarrow> None
      | Some p \<Rightarrow>
          (let nodeList = (case children (h ! p) of None \<Rightarrow> [] | Some cs \<Rightarrow> cs)
           in Some (AList.delete (key (h ! this)) nodeList)))"

text \<open>\<open>getPath\<close> (lines 117 to 127).  \<open>pop\<close> on an empty array removes nothing.\<close>

fun map_props :: "heap \<Rightarrow> string \<Rightarrow> ref list \<Rightarrow> error + jv list" where
  "map_props h indexer [] = Inr []"
| "map_props h indexer (a # as) =
     (case get_prop (data (h ! a)) indexer of
        Inl e \<Rightarrow> Inl e
      | Inr v \<Rightarrow> (case map_props h indexer as of Inl e \<Rightarrow> Inl e | Inr vs \<Rightarrow> Inr (v # vs)))"

definition getPath :: "heap \<Rightarrow> ref \<Rightarrow> string \<Rightarrow> bool \<Rightarrow> (error + jv list) option" where
  "getPath h this indexer includeRoot =
     (case ancestors h this of
        None \<Rightarrow> None
      | Some anc \<Rightarrow>
          Some (let anc1 = (if \<not> includeRoot then butlast anc else anc);
                    anc2 = rev anc1
                in case map_props h indexer anc2 of
                     Inl e \<Rightarrow> Inl e
                   | Inr path \<Rightarrow>
                       (case get_prop (data (h ! this)) indexer of
                          Inl e \<Rightarrow> Inl e
                        | Inr v \<Rightarrow> Inr (path @ [v]))))"

text \<open>\<open>get\<close> (src/Tree.ts, lines 35 to 38), and the \<open>get\<close> of the second source file
  (src/unnamed/part_000, lines 31 to 33), which has no test of the node's own key.  The
  \<open>descendants\<close> getter is the same text in both files.\<close>

definition get :: "nat \<Rightarrow> heap \<Rightarrow> ref \<Rightarrow> string \<Rightarrow> ref option option" where
  "get fuel h this k =
     (if key (h ! this) = k then Some (Some this)
      else map_option (List.find (\<lambda>node. key (h ! node) = k)) (descendants fuel h this))"

definition get_part_000 :: "nat \<Rightarrow> heap \<Rightarrow> ref \<Rightarrow> string \<Rightarrow> ref option option" where
  "get_part_000 fuel h this k =
     map_option (List.find (\<lambda>node. key (h ! node) = k)) (descendants fuel h this)"

section \<open>Search\<close>

text \<open>
  Modelled from the spec: \<open>isMatch\<close> is lodash's \<open>isMatch\<close>, imported in line 1 of
  src/Tree.ts; its code is not under src/.  Section 6 of the spec gives its contract:
  an object A matches a partial predicate P when every own field in P is present in A
  with a deeply-equal value, fields of A that P does not have being ignored; section 4.1
  adds that nested predicate fields are matched recursively.  The definitions below
  follow that contract the way lodash computes it (\<open>baseIsMatch\<close>, and \<open>baseIsEqual\<close>
  with its partial and unordered flags): a field of P is present when its key is \<open>in\<close>
  A, own or inherited; a primitive of P wants the same primitive in A; an object of P
  wants an object in A and is matched against it field by field; an array of P wants an
  array in A that is at least as long, in which each element of P in turn matches an
  element that no earlier one has taken.  A predicate without own fields (a number, a
  boolean, \<open>null\<close>, the empty string, object or array) matches every object.  Predicates
  are values of \<open>jv\<close>.

  The code applies \<open>isMatch\<close> to the \<open>Tree\<close> object itself.  The values that the
  matcher meets on the object side are therefore: payload values (\<open>V\<close>); \<open>Tree\<close>
  objects (\<open>T\<close>); arrays of \<open>Tree\<close> objects (\<open>TL\<close>: \<open>childrenList\<close>, \<open>ancestors\<close>,
  \<open>descendants\<close>, and the \<open>siblings\<close> of a node without parent); objects whose values
  are \<open>Tree\<close> objects (\<open>TM\<close>: \<open>children\<close>, \<open>siblings\<close>); functions (\<open>Fn\<close>: the methods of
  the class and of \<open>Object.prototype\<close>); and the two prototype objects that reading
  \<open>__proto__\<close> gives (\<open>TProto\<close>, \<open>OProto\<close>).
\<close>

datatype view =
    V jv
  | T ref
  | TL "ref list"
  | TM "(string \<times> ref) list"
  | Fn
  | TProto
  | OProto

text \<open>The members of the class \<open>Tree\<close> of src/Tree.ts: its seven accessors (lines 40 to
  104) and its methods.  They are properties of \<open>Tree.prototype\<close>, so that \<open>in\<close> finds
  them on every \<open>Tree\<close> object.  The own fields \<open>key\<close> and \<open>data\<close> are assigned by every
  constructor call, \<open>parent\<close> and \<open>children\<close> exist on an object once they have been
  assigned.  Then the members of \<open>Object.prototype\<close>.\<close>

definition tree_accessors :: "string list" where
  "tree_accessors =
     [''isRoot'', ''depth'', ''rootNode'', ''childrenList'', ''ancestors'', ''descendants'',
      ''siblings'']"

definition tree_methods :: "string list" where
  "tree_methods =
     [''constructor'', ''get'', ''getPath'', ''findAllChildren'', ''findAllDescendants'',
      ''findOneDescendant'', ''hasChildren'', ''findOneChild'', ''appendChild'',
      ''getNextChildKey'', ''traverse'', ''serialize'']"

definition object_methods :: "string list" where
  "object_methods =
     [''constructor'', ''__defineGetter__'', ''__defineSetter__'', ''hasOwnProperty'',
      ''__lookupGetter__'', ''__lookupSetter__'', ''isPrototypeOf'', ''propertyIsEnumerable'',
      ''toString'', ''valueOf'', ''toLocaleString'']"

text \<open>\<open>k in o\<close>, for the objects that the matcher asks it of.\<close>

fun has_prop :: "heap \<Rightarrow> view \<Rightarrow> string \<Rightarrow> bool" where
  "has_prop h (T n) k =
     (k = ''data'' \<or> k = ''key'' \<or>
      (k = ''parent'' \<and> parent (h ! n) \<noteq> None) \<or>
      (k = ''children'' \<and> children (h ! n) \<noteq> None) \<or>
      k \<in> set tree_accessors \<or> k \<in> set tree_methods \<or>
      k = ''__proto__'' \<or> k \<in> set object_methods)"
| "has_prop h (V (JObj fs)) k =
     (map_of fs k \<noteq> None \<or> k = ''__proto__'' \<or> k \<in> set object_methods)"
| "has_prop h (TM es) k =
     (map_of es k \<noteq> None \<or> k = ''__proto__'' \<or> k \<in> set object_methods)"
| "has_prop h TProto k =
     (k \<in> set tree_accessors \<or> k \<in> set tree_methods \<or>
      k = ''__proto__'' \<or> k \<in> set object_methods)"
| "has_prop h OProto k = (k = ''__proto__'' \<or> k \<in> set object_methods)"
| "has_prop h v k = False"

text \<open>\<open>o[k]\<close>, for the same objects.  Reading an accessor runs its getter, which may
  not return (\<open>None\<close>); a property that \<open>o\<close> does not have reads as \<open>undefined\<close>.  On
  \<open>Tree.prototype\<close> itself the getters run with no \<open>parent\<close> and no \<open>children\<close>.\<close>

fun read_prop :: "nat \<Rightarrow> heap \<Rightarrow> view \<Rightarrow> string \<Rightarrow> view option" where
  "read_prop fuel h (T n) k =
     (if k = ''data'' then Some (V (data (h ! n)))
      else if k = ''key'' then Some (V (JStr (key (h ! n))))
      else if k = ''parent'' then
        Some (case parent (h ! n) of None \<Rightarrow> V JUndefined | Some p \<Rightarrow> T p)
      else if k = ''children'' then
        Some (case children (h ! n) of None \<Rightarrow> V JUndefined | Some cs \<Rightarrow> TM cs)
      else if k = ''isRoot'' then Some (V (JBool (isRoot h n)))
      else if k = ''depth'' then map_option (\<lambda>d. V (JNum d)) (depth h n)
      else if k = ''rootNode'' then map_option T (rootNode h n)
      else if k = ''childrenList'' then Some (TL (childrenList h n))
      else if k = ''ancestors'' then map_option TL (ancestors h n)
      else if k = ''descendants'' then map_option TL (descendants fuel h n)
      else if k = ''siblings'' then
        Some (case siblings h n of None \<Rightarrow> TL [] | Some es \<Rightarrow> TM es)
      else if k = ''__proto__'' then Some TProto
      else if k \<in> set tree_methods \<or> k \<in> set object_methods then Some Fn
      else Some (V JUndefined))"
| "read_prop fuel h (V (JObj fs)) k =
     (case map_of fs k of
        Some v \<Rightarrow> Some (V v)
      | None \<Rightarrow>
          if k = ''__proto__'' then Some OProto
          else if k \<in> set object_methods then Some Fn
          else Some (V JUndefined))"
| "read_prop fuel h (TM es) k =
     (case map_of es k of
        Some c \<Rightarrow> Some (T c)
      | None \<Rightarrow>
          if k = ''__proto__'' then Some OProto
          else if k \<in> set object_methods then Some Fn
          else Some (V JUndefined))"
| "read_prop fuel h TProto k =
     (if k = ''isRoot'' then Some (V (JBool True))
      else if k = ''depth'' then Some (V (JNum 0))
      else if k = ''rootNode'' then Some TProto
      else if k = ''childrenList'' \<or> k = ''ancestors'' \<or> k = ''descendants'' \<or> k = ''siblings''
        then Some (TL [])
      else if k = ''__proto__'' then Some OProto
      else if k \<in> set tree_methods \<or> k \<in> set object_methods then Some Fn
      else Some (V JUndefined))"
| "read_prop fuel h OProto k =
     (if k = ''__proto__'' then Some (V JNull)
      else if k \<in> set object_methods then Some Fn
      else Some (V JUndefined))"
| "read_prop fuel h v k = Some (V JUndefined)"

text \<open>The object-side values that are objects, and the elements of those that are
  arrays.\<close>

fun is_object :: "view \<Rightarrow> bool" where
  "is_object (V (JObj fs)) = True"
| "is_object (T n) = True"
| "is_object (TM es) = True"
| "is_object TProto = True"
| "is_object OProto = True"
| "is_object v = False"

fun elements :: "view \<Rightarrow> view list option" where
  "elements (V (JArr ys)) = Some (map V ys)"
| "elements (TL rs) = Some (map T rs)"
| "elements v = None"

text \<open>The partial comparison of a predicate value with an object-side value.
  \<open>equalObjects\<close> first asks for every key of the predicate to be \<open>in\<close> the object and
  then compares the values in key order; \<open>equalArrays\<close> looks, for each element of the
  predicate, for the first element of the array that no earlier one has taken and that
  compares equal (\<open>arraySome\<close>, \<open>seen\<close> holding the indices taken).\<close>

fun baseIsEqual :: "nat \<Rightarrow> heap \<Rightarrow> jv \<Rightarrow> view \<Rightarrow> bool option"
  and equalObjects :: "nat \<Rightarrow> heap \<Rightarrow> (string \<times> jv) list \<Rightarrow> view \<Rightarrow> bool option"
  and equalArrays :: "nat \<Rightarrow> heap \<Rightarrow> jv list \<Rightarrow> view list \<Rightarrow> nat list \<Rightarrow> bool option"
  and arraySome :: "nat \<Rightarrow> heap \<Rightarrow> jv \<Rightarrow> view list \<Rightarrow> nat \<Rightarrow> nat list \<Rightarrow> nat option option"
where
  "baseIsEqual fuel h (JObj ps) other =
     (if is_object other then
        (if list_all (\<lambda>e. has_prop h other (fst e)) ps then equalObjects fuel h ps other
         else Some False)
      else Some False)"
| "baseIsEqual fuel h (JArr xs) other =
     (case elements other of
        None \<Rightarrow> Some False
      | Some ys \<Rightarrow>
          if length xs \<noteq> length ys \<and> \<not> length ys > length xs then Some False
          else equalArrays fuel h xs ys [])"
| "baseIsEqual fuel h JUndefined other = Some (other = V JUndefined)"
| "baseIsEqual fuel h JNull other = Some (other = V JNull)"
| "baseIsEqual fuel h (JBool b) other = Some (other = V (JBool b))"
| "baseIsEqual fuel h (JNum i) other = Some (other = V (JNum i))"
| "baseIsEqual fuel h (JStr s) other = Some (other = V (JStr s))"
| "equalObjects fuel h [] other = Some True"
| "equalObjects fuel h ((k, v) # rest) other =
     (case read_prop fuel h other k of
        None \<Rightarrow> None
      | Some othValue \<Rightarrow>
          (case baseIsEqual fuel h v othValue of
             None \<Rightarrow> None
           | Some b \<Rightarrow> if b then equalObjects fuel h rest other else Some False))"
| "equalArrays fuel h [] ys seen = Some True"
| "equalArrays fuel h (x # xs) ys seen =
     (case arraySome fuel h x ys 0 seen of
        None \<Rightarrow> None
      | Some None \<Rightarrow> Some False
      | Some (Some j) \<Rightarrow> equalArrays fuel h xs ys (seen @ [j]))"
| "arraySome fuel h x [] j seen = Some None"
| "arraySome fuel h x (y # ys) j seen =
     (if j \<in> set seen then arraySome fuel h x ys (Suc j) seen
      else
        (case baseIsEqual fuel h x y of
           None \<Rightarrow> None
         | Some b \<Rightarrow> if b then Some (Some j) else arraySome fuel h x ys (Suc j) seen))"

text \<open>\<open>isMatch(object, source)\<close>.  The fields of the predicate are its own enumerable
  properties with their values.  A first loop, from the last field to the first, reads
  the field off the object when the predicate's value is a primitive, and wants the
  same primitive, or else asks for the key to be \<open>in\<close> the object; a second loop, from
  the first field to the last, reads every field again, rejects an \<open>undefined\<close> whose key
  is not \<open>in\<close> the object and compares the values that are not primitives.\<close>

definition isStrictComparable :: "jv \<Rightarrow> bool" where
  "isStrictComparable v = (case v of JArr xs \<Rightarrow> False | JObj fs \<Rightarrow> False | _ \<Rightarrow> True)"

fun baseIsMatch_first :: "nat \<Rightarrow> heap \<Rightarrow> view \<Rightarrow> (string \<times> jv) list \<Rightarrow> bool option" where
  "baseIsMatch_first fuel h object [] = Some True"
| "baseIsMatch_first fuel h object ((k, v) # rest) =
     (if isStrictComparable v then
        (case read_prop fuel h object k of
           None \<Rightarrow> None
         | Some objValue \<Rightarrow>
             if objValue \<noteq> V v then Some False else baseIsMatch_first fuel h object rest)
      else if \<not> has_prop h object k then Some False
      else baseIsMatch_first fuel h object rest)"

fun baseIsMatch_second :: "nat \<Rightarrow> heap \<Rightarrow> view \<Rightarrow> (string \<times> jv) list \<Rightarrow> bool option" where
  "baseIsMatch_second fuel h object [] = Some True"
| "baseIsMatch_second fuel h object ((k, v) # rest) =
     (case read_prop fuel h object k of
        None \<Rightarrow> None
      | Some objValue \<Rightarrow>
          if isStrictComparable v then
            (if objValue = V JUndefined \<and> \<not> has_prop h object k then Some False
             else baseIsMatch_second fuel h object rest)
          else
            (case baseIsEqual fuel h v objValue of
               None \<Rightarrow> None
             | Some b \<Rightarrow> if b then baseIsMatch_second fuel h object rest else Some False))"

definition isMatch :: "nat \<Rightarrow> heap \<Rightarrow> ref \<Rightarrow> jv \<Rightarrow> bool option" where
  "isMatch fuel h node source =
     (let matchData = own_props source
      in case baseIsMatch_first fuel h (T node) (rev matchData) of
           None \<Rightarrow> None
         | Some b \<Rightarrow> if b then baseIsMatch_second fuel h (T node) matchData else Some False)"

text \<open>\<open>findAllChildren\<close>, \<open>findAllDescendants\<close>, \<open>findOneDescendant\<close> and
  \<open>findOneChild\<close> (src/Tree.ts, lines 129 to 153).  \<open>filter_nodes\<close> is \<open>Array.filter\<close>
  with a callback that may not return.\<close>

fun filter_nodes :: "(ref \<Rightarrow> bool option) \<Rightarrow> ref list \<Rightarrow> ref list option" where
  "filter_nodes f [] = Some []"
| "filter_nodes f (x # xs) =
     (case f x of
        None \<Rightarrow> None
      | Some b \<Rightarrow>
          (case filter_nodes f xs of
             None \<Rightarrow> None
           | Some ys \<Rightarrow> Some (if b then x # ys else ys)))"

definition findAllChildren :: "nat \<Rightarrow> heap \<Rightarrow> ref \<Rightarrow> jv \<Rightarrow> ref list option" where
  "findAllChildren fuel h this predicate =
     filter_nodes (\<lambda>node. isMatch fuel h node predicate) (childrenList h this)"

definition findAllDescendants :: "nat \<Rightarrow> heap \<Rightarrow> ref \<Rightarrow> jv \<Rightarrow> ref list option" where
  "findAllDescendants fuel h this predicate =
     (case descendants fuel h this of
        None \<Rightarrow> None
      | Some ds \<Rightarrow> filter_nodes (\<lambda>node. isMatch fuel h node predicate) ds)"

definition findOneDescendant :: "nat \<Rightarrow> heap \<Rightarrow> ref \<Rightarrow> jv \<Rightarrow> ref option option" where
  "findOneDescendant fuel h this predicate =
     (case findAllDescendants fuel h this predicate of
        None \<Rightarrow> None
      | Some result \<Rightarrow> Some (if length result \<noteq> 0 then Some (result ! 0) else None))"

definition findOneChild :: "nat \<Rightarrow> heap \<Rightarrow> ref \<Rightarrow> jv \<Rightarrow> ref option option" where
  "findOneChild fuel h this predicate =
     (case findAllChildren fuel h this predicate of
        None \<Rightarrow> None
      | Some result \<Rightarrow> Some (if length result \<noteq> 0 then Some (result ! 0) else None))"

text \<open>The object-side values whose references are cells of the store; the names of
  the properties of a \<open>Tree\<close> object that are not functions; and, for a payload, to
  have every field of a list with the value given there.\<close>

fun valid_view :: "heap \<Rightarrow> view \<Rightarrow> bool" where
  "valid_view h (T n) = (n < length h)"
| "valid_view h (TL rs) = list_all (\<lambda>r. r < length h) rs"
| "valid_view h (TM es) = list_all (\<lambda>e. snd e < length h) es"
| "valid_view h v = True"



section \<open>Serialization\<close>

text \<open>\<open>serialize\<close> (src/Tree.ts, lines 186 to 197), with fuel as \<open>descendants\<close>.  The
  spread \<open>{...this.data, children: vs}\<close> copies the own properties of \<open>data\<close> and then
  assigns \<open>children\<close>.\<close>

fun serialize :: "nat \<Rightarrow> heap \<Rightarrow> ref \<Rightarrow> jv option" where
  "serialize 0 h this = None"
| "serialize (Suc n) h this =
     (case children (h ! this) of
        None \<Rightarrow> Some (data (h ! this))
      | Some cs \<Rightarrow>
          map_option (\<lambda>vs. JObj (AList.update ''children'' (JArr vs) (own_props (data (h ! this)))))
            (those (map (\<lambda>child. serialize n h child) (map snd cs))))"

section \<open>The second source file\<close>

text \<open>
  src/unnamed/part_000 holds a second copy of the class.  Its \<open>getNextChildKey\<close> (lines
  127 to 137), constructor (lines 14 to 29) and \<open>serialize\<close> (lines 148 to 159) are
  transcribed here from that file, to be compared with the ones of src/Tree.ts.  It has
  no \<open>getPath\<close> and no \<open>hasChildren\<close>, its \<open>get\<close> is \<open>get_part_000\<close> above, and its other
  members (the seven accessors, the four \<open>find\<close> methods and \<open>appendChild\<close>) are the text
  of src/Tree.ts, line for line.  The two methods that it lacks are functions in
  src/Tree.ts, which no predicate value equals, so that a predicate naming one of them
  matches no object of either file.
\<close>

definition getNextChildKey_part_000 :: "heap \<Rightarrow> ref \<Rightarrow> string" where
  "getNextChildKey_part_000 h this =
     (case children (h ! this) of
        None \<Rightarrow> key (h ! this) @ ''.0''
      | Some cs \<Rightarrow>
          if length (map fst cs) = 0 then key (h ! this) @ ''.0''
          else
            (let childKeys = map fst cs;
                 lastKey = childKeys ! (length childKeys - 1);
                 keyArray = map parseInt10 (split_dot lastKey);
                 keyArray' = keyArray[length keyArray - 1 := incr (keyArray ! (length keyArray - 1))]
             in join_dot (map number_toString keyArray')))"

function construct_part_000 :: "jv \<Rightarrow> ref option \<Rightarrow> heap \<Rightarrow> error + (ref \<times> heap)"
  and construct_children_part_000 :: "jv list \<Rightarrow> ref \<Rightarrow> heap \<Rightarrow> error + heap"
where
  "construct_part_000 props par h =
     (let this = length h;
          k = (case par of Some p \<Rightarrow> getNextChildKey_part_000 h p | None \<Rightarrow> ''0'');
          h1 = h @ [\<lparr>key = k, children = None, data = props, parent = par\<rparr>]
      in case get_prop props ''children'' of
           Inl e \<Rightarrow> Inl e
         | Inr c \<Rightarrow>
             if truthy c then
               (case c of
                  JArr cs \<Rightarrow>
                    (case construct_children_part_000 cs this
                            (h1[this := (h1 ! this)\<lparr>children := Some []\<rparr>]) of
                       Inl e \<Rightarrow> Inl e
                     | Inr h2 \<Rightarrow> Inr (this, h2))
                | _ \<Rightarrow> Inl TypeError)
             else Inr (this, h1))"
| "construct_children_part_000 [] this h = Inr h"
| "construct_children_part_000 (child # rest) this h =
     (case construct_part_000 child (Some this) h of
        Inl e \<Rightarrow> Inl e
      | Inr (newChild, h') \<Rightarrow>
          (case set_child this (key (h' ! newChild)) newChild h' of
             Inl e \<Rightarrow> Inl e
           | Inr h'' \<Rightarrow> construct_children_part_000 rest this h''))"
  by pat_completeness auto

termination
proof -
  have sz: "size_list size cs < size v" if g: "get_prop v k = Inr (JArr cs)" for v k cs
  proof (cases v)
    case (JObj fs)
    have "map_of fs k = Some x \<Longrightarrow> size x < Suc (size_list (size_prod (\<lambda>x. 0) size) fs)" for x
      by (induction fs) (auto split: if_splits)
    with JObj g show ?thesis
      by (fastforce split: option.splits)
  next
    case (JArr xs)
    have "x \<in> set xs \<Longrightarrow> size x < Suc (size_list size xs)" for x
      by (induction xs) auto
    with JArr g show ?thesis
      by (fastforce split: option.splits if_splits dest!: map_of_SomeD set_zip_rightD)
  next
    case (JStr s)
    with g show ?thesis
      by (auto split: option.splits if_splits dest!: map_of_SomeD set_zip_rightD)
  qed (use g in auto)
  show ?thesis
    by (relation "measure (\<lambda>x. case x of
                      Inl (props, par, h) \<Rightarrow> size props
                    | Inr (cs, this, h) \<Rightarrow> size_list size cs)")
       (auto dest: sz)
qed

fun serialize_part_000 :: "nat \<Rightarrow> heap \<Rightarrow> ref \<Rightarrow> jv option" where
  "serialize_part_000 0 h this = None"
| "serialize_part_000 (Suc n) h this =
     (case children (h ! this) of
        None \<Rightarrow> Some (data (h ! this))
      | Some cs \<Rightarrow>
          map_option (\<lambda>vs. JObj (AList.update ''children'' (JArr vs) (own_props (data (h ! this)))))
            (those (map (\<lambda>child. serialize_part_000 n h child) (map snd cs))))"

section \<open>Well-formed records, reachable stores and the scenario of the spec\<close>

text \<open>The type \<open>serializedTree<T>\<close> (src/Tree.ts, lines 3 to 5): a record whose
  \<open>children\<close> field, when it has one, is an array of such records.\<close>

function (sequential) wf_record :: "jv \<Rightarrow> bool" where
  "wf_record (JObj fs) =
     (case map_of fs ''children'' of
        None \<Rightarrow> True
      | Some c \<Rightarrow> (case c of JUndefined \<Rightarrow> True | JArr cs \<Rightarrow> list_all wf_record cs | _ \<Rightarrow> False))"
| "wf_record v = False"
  by pat_completeness auto

termination
proof -
  have le: "x \<in> set cs \<Longrightarrow> size x \<le> size_list size cs" for cs and x :: jv
    by (induction cs) auto
  have "map_of fs k = Some (JArr cs) \<Longrightarrow> x \<in> set cs
          \<Longrightarrow> size x < Suc (size_list (size_prod (\<lambda>x. 0) size) fs)" for fs k cs and x :: jv
    by (induction fs) (auto split: if_splits dest: le)
  then show ?thesis
    by (relation "measure size") auto
qed

text \<open>The stores a program can reach: a root built by \<open>new Tree(props)\<close>, then any number
  of \<open>appendChild\<close> calls on nodes of the tree.  The root is the first cell.\<close>

inductive reachable :: "heap \<Rightarrow> bool" where
  construct_root: "construct props None [] = Inr (root, h) \<Longrightarrow> reachable h"
| append_child: "reachable h \<Longrightarrow> this < length h \<Longrightarrow> appendChild nodeData this h = Inr (n, h')
                   \<Longrightarrow> reachable h'"

text \<open>The record of the scenario in section 8 of the spec, and the store that
  \<open>new Tree\<close> builds from it.\<close>

definition scenario_c :: jv where
  "scenario_c = JObj [(''name'', JStr ''c'')]"

definition scenario_b :: jv where
  "scenario_b = JObj [(''name'', JStr ''b''), (''children'', JArr [scenario_c])]"

definition scenario_a :: jv where
  "scenario_a = JObj [(''name'', JStr ''a'')]"

definition scenario_r :: jv where
  "scenario_r = JObj [(''name'', JStr ''r''), (''children'', JArr [scenario_a, scenario_b])]"

definition scenario_heap :: heap where
  "scenario_heap =
     [\<lparr>key = ''0'', children = Some [(''0.0'', 1), (''0.1'', 2)], data = scenario_r, parent = None\<rparr>,
      \<lparr>key = ''0.0'', children = None, data = scenario_a, parent = Some 0\<rparr>,
      \<lparr>key = ''0.1'', children = Some [(''0.1.0'', 3)], data = scenario_b, parent = Some 0\<rparr>,
      \<lparr>key = ''0.1.0'', children = None, data = scenario_c, parent = Some 2\<rparr>]"

section \<open>Keys and invariants of the store\<close>

text \<open>The key of a position: the dot-separated decimal numerals of a path of child
  indices.  \<open>entries_ok\<close>, \<open>attached\<close> and \<open>node_ok\<close> state what holds of the cells of a
  tree: the \<open>i\<close>-th entry of a node's children object has the node's key with the segment
  \<open>i\<close> appended, and points to a cell allocated later that carries this key and points
  back; every cell but the first of a region hangs in the children object of its parent.\<close>

definition key_of_path :: "nat list \<Rightarrow> string" where
  "key_of_path path = join_dot (map show_nat path)"

definition wf_key :: "string \<Rightarrow> bool" where
  "wf_key k \<longleftrightarrow> (\<exists>path. path \<noteq> [] \<and> k = key_of_path path)"

definition child_entries :: "heap \<Rightarrow> ref \<Rightarrow> (string \<times> ref) list" where
  "child_entries h this = (case children (h ! this) of None \<Rightarrow> [] | Some cs \<Rightarrow> cs)"

definition entries_ok :: "heap \<Rightarrow> ref \<Rightarrow> bool" where
  "entries_ok h p \<longleftrightarrow>
     (\<forall>i < length (child_entries h p).
        fst (child_entries h p ! i) = key (h ! p) @ CHR ''.'' # show_nat i \<and>
        p < snd (child_entries h p ! i) \<and>
        snd (child_entries h p ! i) < length h \<and>
        key (h ! snd (child_entries h p ! i)) = fst (child_entries h p ! i) \<and>
        parent (h ! snd (child_entries h p ! i)) = Some p)"

definition attached :: "heap \<Rightarrow> ref \<Rightarrow> ref \<Rightarrow> bool" where
  "attached h a x \<longleftrightarrow>
     (\<exists>p. parent (h ! x) = Some p \<and> a \<le> p \<and> p < x \<and> (key (h ! x), x) \<in> set (child_entries h p))"

definition node_ok :: "heap \<Rightarrow> ref \<Rightarrow> ref \<Rightarrow> bool" where
  "node_ok h a x \<longleftrightarrow>
     wf_key (key (h ! x)) \<and> entries_ok h x \<and>
     data (h ! x) \<noteq> JNull \<and> data (h ! x) \<noteq> JUndefined \<and>
     (a < x \<longrightarrow> attached h a x)"

definition region_ok :: "heap \<Rightarrow> ref \<Rightarrow> bool" where
  "region_ok h a \<longleftrightarrow> a < length h \<and> (\<forall>x. a \<le> x \<and> x < length h \<longrightarrow> node_ok h a x)"


text \<open>What the constructor establishes, and what its loop over \<open>props.children\<close>
  keeps: \<open>data_children h x rest\<close> relates the \<open>children\<close> array in the data of a cell to
  the cells of its children object (\<open>rest\<close> being the entries the loop has not reached
  yet); \<open>built\<close> describes the store after \<open>new Tree(props, par)\<close>, \<open>grown\<close> the store after
  the loop has run on the cell \<open>this\<close>.\<close>

definition data_children :: "heap \<Rightarrow> ref \<Rightarrow> jv list \<Rightarrow> bool" where
  "data_children h x rest \<longleftrightarrow>
     (case children (h ! x) of
        None \<Rightarrow> rest = [] \<and> (\<exists>c. get_prop (data (h ! x)) ''children'' = Inr c \<and> \<not> truthy c)
      | Some cs \<Rightarrow>
          get_prop (data (h ! x)) ''children'' = Inr (JArr (map (\<lambda>e. data (h ! snd e)) cs @ rest)))"

definition built :: "jv \<Rightarrow> ref option \<Rightarrow> heap \<Rightarrow> ref \<Rightarrow> heap \<Rightarrow> bool" where
  "built props par h r h' \<longleftrightarrow>
     r = length h \<and> length h < length h' \<and> take (length h) h' = h \<and>
     key (h' ! r) = (case par of Some p \<Rightarrow> getNextChildKey h p | None \<Rightarrow> ''0'') \<and>
     parent (h' ! r) = par \<and> data (h' ! r) = props \<and>
     region_ok h' r \<and> (\<forall>x. r \<le> x \<and> x < length h' \<longrightarrow> data_children h' x [])"

definition grown :: "heap \<Rightarrow> ref \<Rightarrow> heap \<Rightarrow> bool" where
  "grown h this h' \<longleftrightarrow>
     length h \<le> length h' \<and> take this h' = take this h \<and>
     key (h' ! this) = key (h ! this) \<and> parent (h' ! this) = parent (h ! this) \<and>
     data (h' ! this) = data (h ! this) \<and>
     region_ok h' this \<and> (\<forall>x. this \<le> x \<and> x < length h' \<longrightarrow> data_children h' x [])"


text \<open>The invariant of a tree whose root is the first cell of the store.\<close>

definition tree_inv :: "heap \<Rightarrow> bool" where
  "tree_inv h \<longleftrightarrow> region_ok h 0 \<and> key (h ! 0) = ''0'' \<and> parent (h ! 0) = None"

text \<open>The records that one call of the constructor is run on (src/Tree.ts, lines 22 to
  27): the record itself and then, when its \<open>children\<close> field is an array, the records
  of the calls \<open>new Tree(child, this)\<close> for its entries, in the order of the calls.  Then
  a record with its \<open>children\<close> field removed, as the spec words what \<open>data\<close> should
  hold; and the store after \<open>appendChild\<close> of the record \<open>b\<close> of the scenario to the
  node \<open>a\<close>.\<close>

function subrecords :: "jv \<Rightarrow> jv list" where
  "subrecords props =
     props # (case get_prop props ''children'' of
                Inr (JArr cs) \<Rightarrow> concat (map subrecords cs)
              | _ \<Rightarrow> [])"
  by pat_completeness auto

termination
proof -
  have le: "x \<in> set cs \<Longrightarrow> size x \<le> size_list size cs" for cs and x :: jv
    by (induction cs) auto
  have sz: "size_list size cs < size v" if g: "get_prop v k = Inr (JArr cs)" for v k cs
  proof (cases v)
    case (JObj fs)
    have "map_of fs k = Some x \<Longrightarrow> size x < Suc (size_list (size_prod (\<lambda>x. 0) size) fs)" for x
      by (induction fs) (auto split: if_splits)
    with JObj g show ?thesis
      by (fastforce split: option.splits)
  next
    case (JArr xs)
    have "x \<in> set xs \<Longrightarrow> size x < Suc (size_list size xs)" for x
      by (induction xs) auto
    with JArr g show ?thesis
      by (fastforce split: option.splits if_splits dest!: map_of_SomeD set_zip_rightD)
  next
    case (JStr s)
    with g show ?thesis
      by (auto split: option.splits if_splits dest!: map_of_SomeD set_zip_rightD)
  qed (use g in auto)
  have "size x < size v" if "get_prop v k = Inr (JArr cs)" "x \<in> set cs" for v k cs and x :: jv
    using sz[OF that(1)] le[OF that(2)] by simp
  then show ?thesis
    by (relation "measure size") auto
qed

definition without_children :: "jv \<Rightarrow> jv" where
  "without_children d =
     (case d of JObj fs \<Rightarrow> JObj (filter (\<lambda>f. fst f \<noteq> ''children'') fs) | _ \<Rightarrow> d)"

definition scenario_heap_appended :: heap where
  "scenario_heap_appended =
     [\<lparr>key = ''0'', children = Some [(''0.0'', 1), (''0.1'', 2)], data = scenario_r, parent = None\<rparr>,
      \<lparr>key = ''0.0'', children = Some [(''0.0.0'', 4)], data = scenario_a, parent = Some 0\<rparr>,
      \<lparr>key = ''0.1'', children = Some [(''0.1.0'', 3)], data = scenario_b, parent = Some 0\<rparr>,
      \<lparr>key = ''0.1.0'', children = None, data = scenario_c, parent = Some 2\<rparr>,
      \<lparr>key = ''0.0.0'', children = Some [(''0.0.0.0'', 5)], data = scenario_b, parent = Some 1\<rparr>,
      \<lparr>key = ''0.0.0.0'', children = None, data = scenario_c, parent = Some 4\<rparr>]"


text \<open>The strict descendants of a node, by the child links; the chain of parent links
  from a node up to a node without parent; and the value that reading a field of a
  node's data gives.\<close>

inductive descendant_of :: "heap \<Rightarrow> ref \<Rightarrow> ref \<Rightarrow> bool" for h where
  child: "c \<in> set (childrenList h x) \<Longrightarrow> descendant_of h x c"
| deeper: "c \<in> set (childrenList h x) \<Longrightarrow> descendant_of h c d \<Longrightarrow> descendant_of h x d"

fun is_chain :: "heap \<Rightarrow> ref \<Rightarrow> ref list \<Rightarrow> bool" where
  "is_chain h r [] = (parent (h ! r) = None)"
| "is_chain h r (p # ps) = (parent (h ! r) = Some p \<and> is_chain h p ps)"

definition prop_of :: "heap \<Rightarrow> string \<Rightarrow> ref \<Rightarrow> jv" where
  "prop_of h indexer a = (case get_prop (data (h ! a)) indexer of Inr v \<Rightarrow> v | Inl e \<Rightarrow> JUndefined)"


declare construct.simps [simp del] construct_part_000.simps [simp del] subrecords.simps [simp del]

section \<open>Numerals, \<open>split\<close> and \<open>join\<close>\<close>

lemma digit_char_props: "d < 10 \<Longrightarrow> of_char (digit_char d) = 48 + d"
  by (simp add: digit_char_def)

lemma is_digit_digit_char: "d < 10 \<Longrightarrow> is_digit (digit_char d)"
  by (simp add: is_digit_def digit_char_def)

lemma show_nat_nonempty: "show_nat n \<noteq> []"
  by (subst show_nat.simps) simp

lemma show_nat_digits: "c \<in> set (show_nat n) \<Longrightarrow> is_digit c"
proof (induction n arbitrary: c rule: show_nat.induct)
  case (1 n)
  show ?case
  proof (cases "n < 10")
    case True
    with "1.prems" show ?thesis
      by (subst (asm) show_nat.simps) (simp add: is_digit_digit_char)
  next
    case False
    with "1.prems" have "c \<in> set (show_nat (n div 10)) \<or> c = digit_char (n mod 10)"
      by (subst (asm) show_nat.simps) auto
    with False "1.IH" show ?thesis
      by (auto simp: is_digit_digit_char)
  qed
qed

lemma digits_value_snoc: "digits_value (s @ [c]) = 10 * digits_value s + (of_char c - 48)"
  by (simp add: digits_value_def)

lemma digits_value_show_nat: "digits_value (show_nat n) = n"
proof (induction n rule: show_nat.induct)
  case (1 n)
  show ?case
  proof (cases "n < 10")
    case True
    then show ?thesis
      by (subst show_nat.simps) (simp add: digits_value_def digit_char_def)
  next
    case False
    with "1.IH" show ?thesis
      by (subst show_nat.simps) (simp add: digits_value_snoc digit_char_def)
  qed
qed

lemma show_nat_inj: "show_nat a = show_nat b \<Longrightarrow> a = b"
  by (metis digits_value_show_nat)

lemma is_digit_not_space: "is_digit c \<Longrightarrow> \<not> is_space c"
  by (auto simp: is_digit_def is_space_def)

lemma is_digit_not_sign: "is_digit c \<Longrightarrow> c \<noteq> CHR ''-'' \<and> c \<noteq> CHR ''+'' \<and> c \<noteq> CHR ''.''"
  by (auto simp: is_digit_def)

lemma parseInt10_digits:
  assumes "s \<noteq> []" "\<forall>c \<in> set s. is_digit c"
  shows "parseInt10 s = Some (int (digits_value s))"
proof -
  obtain c cs where s: "s = c # cs" using assms(1) by (cases s) auto
  have c: "is_digit c" using assms(2) s by simp
  have t: "dropWhile is_space s = s" using c s by (simp add: is_digit_not_space)
  have z: "takeWhile is_digit s = s" using assms(2) by (simp add: takeWhile_eq_all_conv)
  have neg: "(case s of [] \<Rightarrow> False | c # _ \<Rightarrow> c = CHR ''-'') = False"
    using is_digit_not_sign[OF c] by (simp add: s)
  have u: "(case s of [] \<Rightarrow> [] | c # cs \<Rightarrow> if c = CHR ''-'' \<or> c = CHR ''+'' then cs else s) = s"
    using is_digit_not_sign[OF c] by (simp add: s)
  show ?thesis
    unfolding parseInt10_def t Let_def neg u z using assms(1) by simp
qed

lemma parseInt10_show_nat: "parseInt10 (show_nat n) = Some (int n)"
  by (simp add: parseInt10_digits show_nat_nonempty show_nat_digits digits_value_show_nat)

lemma show_nat_no_dot: "CHR ''.'' \<notin> set (show_nat n)"
  using show_nat_digits is_digit_not_sign by blast

lemma split_dot_nonempty: "split_dot s \<noteq> []"
  by (induction s) (auto split: list.splits)

lemma split_dot_no_dot: "CHR ''.'' \<notin> set s \<Longrightarrow> split_dot s = [s]"
  by (induction s) auto

lemma split_dot_append:
  "CHR ''.'' \<notin> set s \<Longrightarrow> split_dot (s @ CHR ''.'' # t) = s # split_dot t"
  by (induction s) auto

lemma split_join:
  "ss \<noteq> [] \<Longrightarrow> \<forall>s \<in> set ss. CHR ''.'' \<notin> set s \<Longrightarrow> split_dot (join_dot ss) = ss"
proof (induction ss rule: join_dot.induct)
  case (3 s t ss)
  then show ?case by (simp add: split_dot_append)
qed (auto simp: split_dot_no_dot)

lemma join_dot_snoc: "ss \<noteq> [] \<Longrightarrow> join_dot (ss @ [s]) = join_dot ss @ CHR ''.'' # s"
  by (induction ss rule: join_dot.induct) auto

lemma show_nat_0: "show_nat 0 = ''0''"
  by code_simp

lemma key_of_path_snoc:
  "path \<noteq> [] \<Longrightarrow> key_of_path (path @ [i]) = key_of_path path @ CHR ''.'' # show_nat i"
  by (simp add: key_of_path_def join_dot_snoc)

lemma split_key_of_path: "path \<noteq> [] \<Longrightarrow> split_dot (key_of_path path) = map show_nat path"
  unfolding key_of_path_def by (rule split_join) (auto simp: show_nat_no_dot)

lemma key_of_path_inj:
  assumes "p \<noteq> []" "q \<noteq> []" "key_of_path p = key_of_path q"
  shows "p = q"
proof -
  have "map show_nat p = map show_nat q"
    using assms split_key_of_path by metis
  moreover have "inj show_nat"
    by (rule injI) (rule show_nat_inj)
  ultimately show ?thesis
    by (simp add: inj_map_eq_map)
qed

lemma wf_key_root: "wf_key ''0''"
  unfolding wf_key_def by (rule exI[of _ "[0]"]) (simp add: key_of_path_def show_nat_0)

lemma wf_key_child: "wf_key k \<Longrightarrow> wf_key (k @ CHR ''.'' # show_nat i)"
  unfolding wf_key_def by (metis key_of_path_snoc snoc_eq_iff_butlast)

lemma child_key_inj:
  assumes "wf_key k" "wf_key k'" "k @ CHR ''.'' # show_nat i = k' @ CHR ''.'' # show_nat j"
  shows "k = k' \<and> i = j"
proof -
  from assms(1) obtain p where p: "p \<noteq> []" "k = key_of_path p" by (auto simp: wf_key_def)
  from assms(2) obtain q where q: "q \<noteq> []" "k' = key_of_path q" by (auto simp: wf_key_def)
  have "key_of_path (p @ [i]) = key_of_path (q @ [j])"
    using assms(3) p q by (simp add: key_of_path_snoc)
  then have "p @ [i] = q @ [j]"
    by (intro key_of_path_inj) auto
  then show ?thesis using p q by simp
qed

lemma root_key_not_child: "''0'' \<noteq> k @ CHR ''.'' # s"
proof
  assume "''0'' = k @ CHR ''.'' # s"
  then have "CHR ''.'' \<in> set ''0''" by (metis in_set_conv_decomp)
  then show False by simp
qed

lemma next_key_path:
  assumes "path \<noteq> []"
  shows "(let keyArray = map parseInt10 (split_dot (key_of_path (path @ [i])));
              keyArray' = keyArray[length keyArray - 1 := incr (keyArray ! (length keyArray - 1))]
          in join_dot (map number_toString keyArray')) = key_of_path (path @ [Suc i])"
proof -
  have 1: "map parseInt10 (split_dot (key_of_path (path @ [i]))) = map (\<lambda>n. Some (int n)) (path @ [i])"
    by (simp add: split_key_of_path parseInt10_show_nat)
  have 2: "incr (Some (int i)) = Some (int (Suc i))"
    by (simp add: incr_def)
  have 3: "map number_toString (map (\<lambda>n. Some (int n)) q) = map show_nat q" for q
    by (simp add: number_toString_def)
  have "(map (\<lambda>n. Some (int n)) (path @ [i]))
          [length (map (\<lambda>n. Some (int n)) (path @ [i])) - 1 :=
             incr (map (\<lambda>n. Some (int n)) (path @ [i]) ! (length (map (\<lambda>n. Some (int n)) (path @ [i])) - 1))]
        = map (\<lambda>n. Some (int n)) (path @ [Suc i])"
    by (simp add: nth_append 2 list_update_append del: of_nat_Suc)
  then show ?thesis
    unfolding Let_def 1 by (simp only: 3 key_of_path_def)
qed

lemma getNextChildKey_entries:
  assumes "wf_key (key (h ! p))" "entries_ok h p"
  shows "getNextChildKey h p = key (h ! p) @ CHR ''.'' # show_nat (length (child_entries h p))"
proof (cases "child_entries h p = []")
  case True
  then show ?thesis
    by (auto simp: getNextChildKey_def child_entries_def show_nat_0 split: option.splits)
next
  case False
  then obtain cs where cs: "children (h ! p) = Some cs" "cs \<noteq> []" "child_entries h p = cs"
    by (auto simp: child_entries_def split: option.splits)
  from assms(1) obtain path where path: "path \<noteq> []" "key (h ! p) = key_of_path path"
    by (auto simp: wf_key_def)
  define m where "m = length cs - 1"
  have m: "length cs = Suc m" using cs(2) by (simp add: m_def)
  have "fst (cs ! m) = key (h ! p) @ CHR ''.'' # show_nat m"
    using assms(2) cs(3) m by (simp add: entries_ok_def)
  then have last: "map fst cs ! (length (map fst cs) - 1) = key_of_path (path @ [m])"
    using path m by (simp add: key_of_path_snoc)
  define nk where "nk lastKey =
      (let keyArray = map parseInt10 (split_dot lastKey);
           keyArray' = keyArray[length keyArray - 1 := incr (keyArray ! (length keyArray - 1))]
       in join_dot (map number_toString keyArray'))" for lastKey
  have "getNextChildKey h p = nk (map fst cs ! (length (map fst cs) - 1))"
    unfolding getNextChildKey_def cs(1) nk_def using cs(2) by (simp add: Let_def)
  moreover have "nk (key_of_path (path @ [m])) = key_of_path (path @ [Suc m])"
    unfolding nk_def by (rule next_key_path[OF path(1)])
  ultimately have "getNextChildKey h p = key_of_path (path @ [Suc m])"
    using last by simp
  then show ?thesis
    using path cs(3) m by (simp add: key_of_path_snoc)
qed

section \<open>The two source files\<close>

lemma getNextChildKey_part_000_eq: "getNextChildKey_part_000 = getNextChildKey"
  by (intro ext) (simp add: getNextChildKey_part_000_def getNextChildKey_def)

lemma construct_part_000_eq:
  "construct_part_000 props par h = construct props par h"
  "construct_children_part_000 cs this h = construct_children cs this h"
proof (induction props par h and cs this h rule: construct_part_000_construct_children_part_000.induct)
  case (1 props par h)
  have k: "(case par of Some p \<Rightarrow> getNextChildKey_part_000 h p | None \<Rightarrow> ''0'')
             = (case par of Some p \<Rightarrow> getNextChildKey h p | None \<Rightarrow> ''0'')"
    by (cases par) (simp_all add: getNextChildKey_part_000_eq)
  show ?case
  proof (cases "get_prop props ''children''")
    case (Inl e)
    then show ?thesis
      by (subst construct_part_000.simps, subst construct.simps) (simp add: Let_def)
  next
    case (Inr c)
    show ?thesis
    proof (cases "\<exists>cs. c = JArr cs")
      case True
      then obtain cs where c: "c = JArr cs" by blast
      have "construct_children_part_000 cs (length h) hh = construct_children cs (length h) hh"
        if "hh = (h @ [\<lparr>key = (case par of Some p \<Rightarrow> getNextChildKey_part_000 h p | None \<Rightarrow> ''0''),
                       children = None, data = props, parent = par\<rparr>])
                  [length h := ((h @ [\<lparr>key = (case par of Some p \<Rightarrow> getNextChildKey_part_000 h p | None \<Rightarrow> ''0''),
                       children = None, data = props, parent = par\<rparr>]) ! length h)\<lparr>children := Some []\<rparr>]" for hh
        using "1.IH"[OF refl refl refl Inr _ c] that c by simp
      then show ?thesis
        using Inr c
        by (subst construct_part_000.simps, subst construct.simps) (simp add: Let_def k)
    next
      case False
      then show ?thesis
        using Inr
        by (subst construct_part_000.simps, subst construct.simps)
           (cases c; simp add: Let_def k)
    qed
  qed
next
  case (2 this h)
  show ?case by simp
next
  case (3 child rest this h)
  show ?case
    by (subst construct_children_part_000.simps, subst construct_children.simps)
       (auto simp: "3.IH" split: sum.splits)
qed

lemma serialize_part_000_eq: "serialize_part_000 n = serialize n"
  by (induction n) (auto intro!: ext split: option.splits)

text \<open>
  C10: the constructor and \<open>serialize\<close> of src/unnamed/part_000 compute what the ones of
  src/Tree.ts compute, on every input; so building a tree from a record and serializing
  it gives the same result (or the same error) with either file.
\<close>

theorem variants_agree:
  "construct_part_000 X par h = construct X par h \<and>
   serialize_part_000 n h' r = serialize n h' r \<and>
   (case construct_part_000 X None [] of
      Inl e \<Rightarrow> Inl e
    | Inr (root, hp) \<Rightarrow> Inr (serialize_part_000 (length hp) hp root)) =
   (case construct X None [] of
      Inl e \<Rightarrow> Inl e
    | Inr (root, hp) \<Rightarrow> Inr (serialize (length hp) hp root))"
  by (simp add: construct_part_000_eq serialize_part_000_eq split: sum.splits prod.splits)

theorem variants_agree_witness:
  "(case construct_part_000 scenario_r None [] of
      Inl e \<Rightarrow> Inl e
    | Inr (root, hp) \<Rightarrow> Inr (serialize_part_000 (length hp) hp root)) =
   (case construct scenario_r None [] of
      Inl e \<Rightarrow> Inl e
    | Inr (root, hp) \<Rightarrow> Inr (serialize (length hp) hp root))"
  using variants_agree[of scenario_r None "[]" 0 "[]" 0] by blast


section \<open>The constructor\<close>

subsection \<open>Attaching a new subtree to a cell\<close>

lemma entries_ok_frame:
  assumes "entries_ok h x"
    and ce: "child_entries h' x = child_entries h x"
    and kx: "key (h' ! x) = key (h ! x)"
    and len: "length h \<le> length h'"
    and same: "\<And>c. c < length h \<Longrightarrow> key (h' ! c) = key (h ! c) \<and> parent (h' ! c) = parent (h ! c)"
  shows "entries_ok h' x"
  unfolding entries_ok_def ce kx
proof (intro allI impI)
  fix i assume i: "i < length (child_entries h x)"
  let ?e = "child_entries h x ! i"
  from assms(1) i have e: "fst ?e = key (h ! x) @ CHR ''.'' # show_nat i" "x < snd ?e"
    "snd ?e < length h" "key (h ! snd ?e) = fst ?e" "parent (h ! snd ?e) = Some x"
    by (simp_all add: entries_ok_def)
  from same[OF e(3)] e len
  show "fst ?e = key (h ! x) @ CHR ''.'' # show_nat i \<and> x < snd ?e \<and> snd ?e < length h' \<and>
        key (h' ! snd ?e) = fst ?e \<and> parent (h' ! snd ?e) = Some x"
    by simp
qed

lemma attached_frame:
  assumes "attached h a x"
    and "a' \<le> a"
    and kx: "key (h' ! x) = key (h ! x)" "parent (h' ! x) = parent (h ! x)"
    and sub: "\<And>q. q < x \<Longrightarrow> set (child_entries h q) \<subseteq> set (child_entries h' q)"
  shows "attached h' a' x"
proof -
  from assms(1) obtain p where p: "parent (h ! x) = Some p" "a \<le> p" "p < x"
    "(key (h ! x), x) \<in> set (child_entries h p)"
    by (auto simp: attached_def)
  from sub[OF p(3)] p(4) have "(key (h ! x), x) \<in> set (child_entries h' p)"
    by blast
  with p assms(2) kx show ?thesis
    unfolding attached_def by (intro exI[of _ p]) simp
qed

lemma attach_region:
  assumes old: "region_ok h a" and ap: "a \<le> p" "p < length h"
    and ext: "take (length h) h1 = h" "length h < length h1"
    and new: "region_ok h1 (length h)"
    and par: "parent (h1 ! length h) = Some p"
    and k: "key (h1 ! length h) = key (h ! p) @ CHR ''.'' # show_nat (length (child_entries h p))"
  shows "region_ok (h1[p := (h1 ! p)\<lparr>children :=
            Some (child_entries h p @ [(key (h1 ! length h), length h)])\<rparr>]) a"
proof -
  define n where "n = length h"
  define h2 where "h2 = h1[p := (h1 ! p)\<lparr>children :=
            Some (child_entries h p @ [(key (h1 ! n), n)])\<rparr>]"
  have F0: "h1 ! y = h ! y" if "y < n" for y
    using that ext(1) unfolding n_def by (metis nth_take)
  have pn: "p < n" "n < length h1" "p < length h1"
    using ap ext by (simp_all add: n_def)
  have F1: "length h2 = length h1"
    by (simp add: h2_def)
  have Fk: "key (h2 ! y) = key (h1 ! y) \<and> parent (h2 ! y) = parent (h1 ! y) \<and> data (h2 ! y) = data (h1 ! y)"
    if "y < length h1" for y
    using that by (cases "y = p") (simp_all add: h2_def)
  have Fc: "child_entries h2 y = child_entries h1 y" if "y < length h1" "y \<noteq> p" for y
    using that by (simp add: h2_def child_entries_def)
  have Fc': "child_entries h1 y = child_entries h y" if "y < n" for y
    using that by (simp add: child_entries_def F0)
  have Fp: "child_entries h2 p = child_entries h p @ [(key (h1 ! n), n)]"
    using pn by (simp add: h2_def child_entries_def)
  have sub: "set (child_entries h q) \<subseteq> set (child_entries h2 q)" if "q < n" for q
    using that Fp Fc[of q] Fc'[of q] pn by (cases "q = p") auto
  have sub1: "set (child_entries h1 q) \<subseteq> set (child_entries h2 q)" if "n \<le> q" "q < length h1" for q
    using that Fc[of q] pn by auto
  have old_ok: "node_ok h a x" if "a \<le> x" "x < n" for x
    using old that by (simp add: region_ok_def n_def)
  have new_ok: "node_ok h1 n x" if "n \<le> x" "x < length h1" for x
    using new that by (simp add: region_ok_def n_def)
  have "node_ok h2 a x" if x: "a \<le> x" "x < length h2" for x
  proof -
    have xl: "x < length h1" using x F1 by simp
    consider (below) "x < n" "x \<noteq> p" | (atp) "x = p" | (atn) "x = n" | (above) "n < x"
      by linarith
    then show ?thesis
    proof cases
      case below
      note ok = old_ok[OF x(1) below(1)]
      have kx: "key (h2 ! x) = key (h ! x)" "parent (h2 ! x) = parent (h ! x)" "data (h2 ! x) = data (h ! x)"
        using Fk[OF xl] F0[OF below(1)] by simp_all
      have "entries_ok h2 x"
      proof (rule entries_ok_frame[of h x])
        show "entries_ok h x" using ok by (simp add: node_ok_def)
        show "child_entries h2 x = child_entries h x"
          using Fc[OF xl below(2)] Fc'[OF below(1)] by simp
        show "key (h2 ! x) = key (h ! x)" by (rule kx)
        show "length h \<le> length h2" using F1 ext by simp
        show "key (h2 ! c) = key (h ! c) \<and> parent (h2 ! c) = parent (h ! c)" if "c < length h" for c
          using that Fk[of c] F0[of c] ext by (simp add: n_def)
      qed
      moreover have "attached h2 a x" if "a < x"
      proof (rule attached_frame[of h a x])
        show "attached h a x" using ok that by (simp add: node_ok_def)
        show "a \<le> a" by simp
        show "key (h2 ! x) = key (h ! x)" "parent (h2 ! x) = parent (h ! x)" by (rule kx)+
        show "set (child_entries h q) \<subseteq> set (child_entries h2 q)" if "q < x" for q
          using that below(1) by (intro sub) simp
      qed
      ultimately show ?thesis
        using ok kx by (simp add: node_ok_def)
    next
      case atp
      note ok = old_ok[OF ap(1) pn(1)]
      have kx: "key (h2 ! p) = key (h ! p)" "parent (h2 ! p) = parent (h ! p)" "data (h2 ! p) = data (h ! p)"
        using Fk[OF pn(3)] F0[OF pn(1)] by simp_all
      have eo: "entries_ok h p" using ok by (simp add: node_ok_def)
      have "entries_ok h2 p"
        unfolding entries_ok_def Fp
      proof (intro allI impI)
        fix i assume i: "i < length (child_entries h p @ [(key (h1 ! n), n)])"
        show "fst ((child_entries h p @ [(key (h1 ! n), n)]) ! i) = key (h2 ! p) @ CHR ''.'' # show_nat i \<and>
              p < snd ((child_entries h p @ [(key (h1 ! n), n)]) ! i) \<and>
              snd ((child_entries h p @ [(key (h1 ! n), n)]) ! i) < length h2 \<and>
              key (h2 ! snd ((child_entries h p @ [(key (h1 ! n), n)]) ! i)) =
                fst ((child_entries h p @ [(key (h1 ! n), n)]) ! i) \<and>
              parent (h2 ! snd ((child_entries h p @ [(key (h1 ! n), n)]) ! i)) = Some p"
        proof (cases "i < length (child_entries h p)")
          case True
          let ?c = "snd (child_entries h p ! i)"
          from eo True have e: "fst (child_entries h p ! i) = key (h ! p) @ CHR ''.'' # show_nat i"
            "p < ?c" "?c < length h" "key (h ! ?c) = fst (child_entries h p ! i)"
            "parent (h ! ?c) = Some p"
            by (simp_all add: entries_ok_def)
          have "key (h2 ! ?c) = key (h ! ?c)" "parent (h2 ! ?c) = parent (h ! ?c)"
            using Fk[of ?c] F0[of ?c] e(3) ext by (simp_all add: n_def)
          with e True show ?thesis
            using F1 ext kx by (simp add: nth_append)
        next
          case False
          with i have i: "i = length (child_entries h p)" by simp
          have "key (h2 ! n) = key (h1 ! n)" "parent (h2 ! n) = parent (h1 ! n)"
            using Fk[OF pn(2)] by simp_all
          then show ?thesis
            using i k par pn F1 kx by (simp add: nth_append n_def)
        qed
      qed
      moreover have "attached h2 a p" if "a < p"
      proof (rule attached_frame[of h a p])
        show "attached h a p" using ok that by (simp add: node_ok_def)
        show "a \<le> a" by simp
        show "key (h2 ! p) = key (h ! p)" "parent (h2 ! p) = parent (h ! p)" by (rule kx)+
        show "set (child_entries h q) \<subseteq> set (child_entries h2 q)" if "q < p" for q
          using that pn(1) by (intro sub) simp
      qed
      ultimately show ?thesis
        using ok kx atp by (simp add: node_ok_def)
    next
      case atn
      note ok = new_ok[OF order_refl pn(2)]
      have kx: "key (h2 ! n) = key (h1 ! n)" "parent (h2 ! n) = parent (h1 ! n)" "data (h2 ! n) = data (h1 ! n)"
        using Fk[OF pn(2)] by simp_all
      have "entries_ok h2 n"
      proof (rule entries_ok_frame[of h1 n])
        show "entries_ok h1 n" using ok by (simp add: node_ok_def)
        show "child_entries h2 n = child_entries h1 n" using Fc[OF pn(2)] pn(1) by simp
        show "key (h2 ! n) = key (h1 ! n)" by (rule kx)
        show "length h1 \<le> length h2" using F1 by simp
        show "key (h2 ! c) = key (h1 ! c) \<and> parent (h2 ! c) = parent (h1 ! c)" if "c < length h1" for c
          using Fk[OF that] by simp
      qed
      moreover have "attached h2 a n"
        unfolding attached_def
      proof (intro exI[of _ p] conjI)
        show "parent (h2 ! n) = Some p" using kx par by (simp add: n_def)
        show "a \<le> p" by (rule ap)
        show "p < n" by (rule pn)
        show "(key (h2 ! n), n) \<in> set (child_entries h2 p)" using Fp kx by simp
      qed
      ultimately show ?thesis
        using ok kx atn by (simp add: node_ok_def)
    next
      case above
      then have nx: "n \<le> x" by simp
      note ok = new_ok[OF nx xl]
      have kx: "key (h2 ! x) = key (h1 ! x)" "parent (h2 ! x) = parent (h1 ! x)" "data (h2 ! x) = data (h1 ! x)"
        using Fk[OF xl] by simp_all
      have "entries_ok h2 x"
      proof (rule entries_ok_frame[of h1 x])
        show "entries_ok h1 x" using ok by (simp add: node_ok_def)
        show "child_entries h2 x = child_entries h1 x" using Fc[OF xl] pn(1) above by simp
        show "key (h2 ! x) = key (h1 ! x)" by (rule kx)
        show "length h1 \<le> length h2" using F1 by simp
        show "key (h2 ! c) = key (h1 ! c) \<and> parent (h2 ! c) = parent (h1 ! c)" if "c < length h1" for c
          using Fk[OF that] by simp
      qed
      moreover have "attached h2 a x"
      proof -
        from ok above obtain q where q: "parent (h1 ! x) = Some q" "n \<le> q" "q < x"
          "(key (h1 ! x), x) \<in> set (child_entries h1 q)"
          by (auto simp: node_ok_def attached_def)
        have "child_entries h2 q = child_entries h1 q"
          using Fc[of q] q(2,3) xl pn(1) by simp
        with q kx show ?thesis
          unfolding attached_def using ap(1) pn(1) by (intro exI[of _ q]) simp
      qed
      ultimately show ?thesis
        using ok kx by (simp add: node_ok_def)
    qed
  qed
  moreover have "a < length h2"
    using F1 ap pn by simp
  ultimately show ?thesis
    unfolding region_ok_def h2_def n_def by blast
qed

subsection \<open>What the constructor builds\<close>

lemma update_fresh: "k \<notin> fst ` set cs \<Longrightarrow> AList.update k v cs = cs @ [(k, v)]"
  by (induction cs) auto

lemma entry_key_fresh:
  assumes "entries_ok h p"
  shows "key (h ! p) @ CHR ''.'' # show_nat (length (child_entries h p)) \<notin> fst ` set (child_entries h p)"
proof
  assume "key (h ! p) @ CHR ''.'' # show_nat (length (child_entries h p)) \<in> fst ` set (child_entries h p)"
  then obtain i where i: "i < length (child_entries h p)"
    "fst (child_entries h p ! i) = key (h ! p) @ CHR ''.'' # show_nat (length (child_entries h p))"
    by (auto simp: in_set_conv_nth)
  with assms have "show_nat i = show_nat (length (child_entries h p))"
    by (simp add: entries_ok_def)
  with i(1) show False
    using show_nat_inj by fastforce
qed

lemma construct_cases:
  assumes "construct props par h = Inr (r, h')"
  obtains (leaf) c where "get_prop props ''children'' = Inr c" "\<not> truthy c" "r = length h"
      "h' = h @ [\<lparr>key = (case par of Some p \<Rightarrow> getNextChildKey h p | None \<Rightarrow> ''0''),
                  children = None, data = props, parent = par\<rparr>]"
  | (arr) cs where "get_prop props ''children'' = Inr (JArr cs)" "r = length h"
      "construct_children cs (length h)
         (h @ [\<lparr>key = (case par of Some p \<Rightarrow> getNextChildKey h p | None \<Rightarrow> ''0''),
                children = Some [], data = props, parent = par\<rparr>]) = Inr h'"
proof (cases "get_prop props ''children''")
  case (Inl e)
  with assms show ?thesis
    by (subst (asm) construct.simps) (simp add: Let_def)
next
  case (Inr c)
  show ?thesis
  proof (cases "truthy c")
    case False
    with assms Inr show ?thesis
      by (intro leaf[of c]) (subst (asm) construct.simps; auto simp: Let_def)+
  next
    case True
    with assms Inr obtain cs where c: "c = JArr cs"
      by (subst (asm) construct.simps) (cases c; simp add: Let_def)
    from assms Inr c show ?thesis
      by (intro arr[of cs]) (subst (asm) construct.simps; auto simp: Let_def split: sum.splits)+
  qed
qed

lemma region_single:
  assumes "wf_key k" "d \<noteq> JNull" "d \<noteq> JUndefined" "cs = None \<or> cs = Some []"
  shows "region_ok (h @ [\<lparr>key = k, children = cs, data = d, parent = par\<rparr>]) (length h)"
proof -
  have "node_ok (h @ [\<lparr>key = k, children = cs, data = d, parent = par\<rparr>]) (length h) x"
    if "length h \<le> x" "x < Suc (length h)" for x
  proof -
    from that have "x = length h" by simp
    with assms show ?thesis
      by (auto simp: node_ok_def entries_ok_def child_entries_def)
  qed
  then show ?thesis
    by (simp add: region_ok_def)
qed

lemma get_prop_not_nullish: "get_prop d k = Inr c \<Longrightarrow> d \<noteq> JNull \<and> d \<noteq> JUndefined"
  by auto

lemma entries_ok_bounds:
  assumes "entries_ok h x" "e \<in> set (child_entries h x)"
  shows "x < snd e \<and> snd e < length h \<and> key (h ! snd e) = fst e \<and> parent (h ! snd e) = Some x"
  using assms unfolding entries_ok_def by (metis in_set_conv_nth)

lemma data_children_frame:
  assumes "data_children h x rest"
    and "children (h' ! x) = children (h ! x)"
    and "data (h' ! x) = data (h ! x)"
    and "\<And>e. e \<in> set (child_entries h x) \<Longrightarrow> data (h' ! snd e) = data (h ! snd e)"
  shows "data_children h' x rest"
proof (cases "children (h ! x)")
  case None
  with assms show ?thesis by (simp add: data_children_def)
next
  case (Some cs)
  then have "map (\<lambda>e. data (h' ! snd e)) cs = map (\<lambda>e. data (h ! snd e)) cs"
    using assms(4) by (simp add: child_entries_def)
  with assms Some show ?thesis by (simp add: data_children_def)
qed

lemma grown_trans:
  assumes "this < length h" "length h \<le> length h2" "take this h2 = take this h"
    and "key (h2 ! this) = key (h ! this)" "parent (h2 ! this) = parent (h ! this)"
    and "data (h2 ! this) = data (h ! this)"
    and "grown h2 this h3"
  shows "grown h this h3"
  using assms unfolding grown_def by simp

lemma construct_region:
  "construct props par h = Inr (r, h') \<Longrightarrow>
     wf_key (case par of Some p \<Rightarrow> getNextChildKey h p | None \<Rightarrow> ''0'') \<Longrightarrow>
     built props par h r h'"
  "construct_children cs this h = Inr h'' \<Longrightarrow> region_ok h this \<Longrightarrow>
     children (h ! this) \<noteq> None \<Longrightarrow>
     (\<forall>x. this < x \<and> x < length h \<longrightarrow> data_children h x []) \<Longrightarrow>
     data_children h this cs \<Longrightarrow>
     grown h this h''"
proof (induction props par h and cs this h arbitrary: r h' and h''
       rule: construct_construct_children.induct)
  case (1 props par h)
  let ?K = "case par of Some p \<Rightarrow> getNextChildKey h p | None \<Rightarrow> ''0''"
  from "1.prems"(1) show ?case
  proof (cases rule: construct_cases)
    case (leaf c)
    let ?n = "\<lparr>key = ?K, children = None, data = props, parent = par\<rparr>"
    have nn: "props \<noteq> JNull" "props \<noteq> JUndefined"
      using get_prop_not_nullish[OF leaf(1)] by simp_all
    have "region_ok (h @ [?n]) (length h)"
      by (rule region_single) (use "1.prems"(2) nn in auto)
    moreover have "data_children (h @ [?n]) x []" if "length h \<le> x" "x < Suc (length h)" for x
    proof -
      from that have "x = length h" by simp
      then show ?thesis using leaf(1,2) by (auto simp: data_children_def)
    qed
    ultimately show ?thesis
      unfolding built_def leaf(3,4) by simp
  next
    case (arr cs)
    let ?n = "\<lparr>key = ?K, children = Some [], data = props, parent = par\<rparr>"
    let ?h0 = "h @ [?n]"
    have nn: "props \<noteq> JNull" "props \<noteq> JUndefined"
      using get_prop_not_nullish[OF arr(1)] by simp_all
    have r0: "region_ok ?h0 (length h)"
      by (rule region_single) (use "1.prems"(2) nn in auto)
    have d0: "data_children ?h0 (length h) cs"
      using arr(1) by (simp add: data_children_def)
    have v0: "\<forall>x. length h < x \<and> x < Suc (length h) \<longrightarrow> data_children ?h0 x []"
      by auto
    have "grown ?h0 (length h) h'"
      using "1.IH"[OF refl refl refl arr(1) _ refl, of h'] arr(3) r0 d0 v0 by simp
    then show ?thesis
      unfolding built_def grown_def arr(2)
      by (auto dest: arg_cong[where f = "take (length h)"])
  qed
next
  case (2 this h)
  have "data_children h x []" if "this \<le> x" "x < length h" for x
    using that "2.prems"(4,5) by (cases "x = this") auto
  with "2.prems" show ?case
    by (simp add: grown_def)
next
  case (3 child rest this h)
  note prems = "3.prems"
  from prems(1) obtain n h1 h2 where c1: "construct child (Some this) h = Inr (n, h1)"
    and s: "set_child this (key (h1 ! n)) n h1 = Inr h2"
    and c2: "construct_children rest this h2 = Inr h''"
    by (auto split: sum.splits prod.splits)
  have tl: "this < length h" using prems(2) by (simp add: region_ok_def)
  have nok: "node_ok h this this" using prems(2) by (simp add: region_ok_def)
  then have wk: "wf_key (key (h ! this))" and eo: "entries_ok h this"
    by (simp_all add: node_ok_def)
  let ?K = "key (h ! this) @ CHR ''.'' # show_nat (length (child_entries h this))"
  have K: "getNextChildKey h this = ?K"
    by (rule getNextChildKey_entries[OF wk eo])
  have "wf_key (case Some this of Some p \<Rightarrow> getNextChildKey h p | None \<Rightarrow> ''0'')"
    using K wk by (simp add: wf_key_child)
  from "3.IH"(1)[OF c1 this] have b: "built child (Some this) h n h1" .
  then have n: "n = length h" and len1: "length h < length h1" and tk: "take (length h) h1 = h"
    and kn: "key (h1 ! n) = ?K" and pn: "parent (h1 ! n) = Some this" and dn: "data (h1 ! n) = child"
    and r1: "region_ok h1 n" and dc1: "\<And>x. n \<le> x \<Longrightarrow> x < length h1 \<Longrightarrow> data_children h1 x []"
    by (auto simp: built_def K)
  have old: "h1 ! y = h ! y" if "y < length h" for y
    using that tk by (metis nth_take)
  obtain ents where dn0: "children (h ! this) = Some ents"
    using prems(3) by auto
  then have ce: "child_entries h this = ents" by (simp add: child_entries_def)
  have fresh: "AList.update ?K n ents = ents @ [(?K, n)]"
    using entry_key_fresh[OF eo] ce by (intro update_fresh) simp
  have h2: "h2 = h1[this := (h1 ! this)\<lparr>children :=
              Some (child_entries h this @ [(key (h1 ! length h), length h)])\<rparr>]"
    using s old[OF tl] dn0 fresh kn n ce by (simp add: set_child_def)
  have r2: "region_ok h2 this"
    unfolding h2
    by (rule attach_region[OF prems(2) order_refl tl tk len1])
       (use r1 pn kn n in simp_all)
  have l2: "length h2 = length h1" by (simp add: h2)
  have tl1: "this < length h1" using tl len1 by simp
  have at2: "key (h2 ! this) = key (h ! this)" "parent (h2 ! this) = parent (h ! this)"
    "data (h2 ! this) = data (h ! this)" "children (h2 ! this) = Some (ents @ [(?K, n)])"
    using tl1 old[OF tl] kn n ce by (simp_all add: h2)
  have other: "h2 ! y = h1 ! y" if "y \<noteq> this" for y
    using that by (simp add: h2)
  have dc2: "data_children h2 x []" if x: "this < x" "x < length h2" for x
  proof (cases "x < n")
    case True
    then have xl: "x < length h" by (simp add: n)
    have "node_ok h this x" using prems(2) x(1) xl by (simp add: region_ok_def)
    then have eox: "entries_ok h x" by (simp add: node_ok_def)
    show ?thesis
    proof (rule data_children_frame[of h x])
      show "data_children h x []" using prems(4) x(1) xl by simp
      show "children (h2 ! x) = children (h ! x)" "data (h2 ! x) = data (h ! x)"
        using other[of x] old[OF xl] x(1) by simp_all
      show "data (h2 ! snd e) = data (h ! snd e)" if "e \<in> set (child_entries h x)" for e
        using entries_ok_bounds[OF eox that] other[of "snd e"] old[of "snd e"] x(1) by simp
    qed
  next
    case False
    then have nx: "n \<le> x" by simp
    have xl: "x < length h1" using x(2) l2 by simp
    have "node_ok h1 n x" using r1 nx xl by (simp add: region_ok_def)
    then have eox: "entries_ok h1 x" by (simp add: node_ok_def)
    show ?thesis
    proof (rule data_children_frame[of h1 x])
      show "data_children h1 x []" by (rule dc1[OF nx xl])
      show "children (h2 ! x) = children (h1 ! x)" "data (h2 ! x) = data (h1 ! x)"
        using other[of x] x(1) by simp_all
      show "data (h2 ! snd e) = data (h1 ! snd e)" if "e \<in> set (child_entries h1 x)" for e
        using entries_ok_bounds[OF eox that] other[of "snd e"] x(1) by simp
    qed
  qed
  have dthis: "data_children h2 this rest"
  proof -
    have "data (h2 ! snd e) = data (h ! snd e)" if "e \<in> set ents" for e
      using entries_ok_bounds[OF eo, of e] that ce other[of "snd e"] old[of "snd e"] by simp
    then have "map (\<lambda>e. data (h2 ! snd e)) ents = map (\<lambda>e. data (h ! snd e)) ents"
      by simp
    moreover have "data (h2 ! n) = child"
      using other[of n] dn tl n by simp
    moreover have "get_prop (data (h ! this)) ''children'' =
        Inr (JArr (map (\<lambda>e. data (h ! snd e)) ents @ child # rest))"
      using prems(5) dn0 by (simp add: data_children_def)
    ultimately show ?thesis
      using at2 by (simp add: data_children_def)
  qed
  have g: "grown h2 this h''"
    by (rule "3.IH"(2)[OF c1 refl s c2 r2]) (use at2 dc2 dthis in auto)
  show ?case
  proof (rule grown_trans[OF tl _ _ at2(1,2,3) g])
    show "length h \<le> length h2" using l2 len1 by simp
    have "take this h2 = take this h1" by (simp add: h2)
    also have "\<dots> = take this (take (length h) h1)" using tl by (simp add: min_def)
    finally show "take this h2 = take this h" using tk by simp
  qed
qed


section \<open>Reachable stores\<close>

lemma construct_root_inv:
  assumes "construct props None [] = Inr (root, h)"
  shows "root = 0 \<and> tree_inv h \<and> data (h ! 0) = props \<and> (\<forall>x < length h. data_children h x [])"
proof -
  have "built props None [] root h"
    by (rule construct_region(1)[OF assms]) (simp add: wf_key_root)
  then show ?thesis
    by (auto simp: built_def tree_inv_def)
qed

lemma appendChild_cases:
  assumes "appendChild nodeData this h = Inr (n, h')"
  obtains h1 where "construct nodeData (Some this) h = Inr (n, h1)"
    and "h' = h1[this := (h1 ! this)\<lparr>children :=
           Some (case children (h1 ! this) of
                   Some cs \<Rightarrow> AList.update (key (h1 ! n)) n cs
                 | None \<Rightarrow> [(key (h1 ! n), n)])\<rparr>]"
proof (cases "construct nodeData (Some this) h")
  case (Inl e)
  with assms show ?thesis by (simp add: appendChild_def)
next
  case (Inr q)
  obtain n1 h1 where q: "q = (n1, h1)" by (cases q)
  show ?thesis
  proof (cases "children (h1 ! this)")
    case None
    with assms Inr q have "n1 = n" "h' = h1[this := (h1 ! this)\<lparr>children := Some [(key (h1 ! n), n)]\<rparr>]"
      by (auto simp: appendChild_def)
    with Inr q None show ?thesis by (intro that[of h1]) simp_all
  next
    case (Some cs)
    with assms Inr q have "n1 = n"
      "h' = h1[this := (h1 ! this)\<lparr>children := Some (AList.update (key (h1 ! n)) n cs)\<rparr>]"
      by (auto simp: appendChild_def)
    with Inr q Some show ?thesis by (intro that[of h1]) simp_all
  qed
qed

lemma appendChild_result:
  assumes inv: "region_ok h 0" and t: "this < length h"
    and a: "appendChild nodeData this h = Inr (n, h')"
  obtains h1 where "built nodeData (Some this) h n h1"
    and "h' = h1[this := (h1 ! this)\<lparr>children :=
                  Some (child_entries h this @ [(key (h1 ! length h), length h)])\<rparr>]"
    and "key (h1 ! n) = key (h ! this) @ CHR ''.'' # show_nat (length (child_entries h this))"
proof -
  from a obtain h1 where c: "construct nodeData (Some this) h = Inr (n, h1)"
    and h': "h' = h1[this := (h1 ! this)\<lparr>children :=
           Some (case children (h1 ! this) of
                   Some cs \<Rightarrow> AList.update (key (h1 ! n)) n cs
                 | None \<Rightarrow> [(key (h1 ! n), n)])\<rparr>]"
    by (rule appendChild_cases)
  have nok: "node_ok h 0 this" using inv t by (simp add: region_ok_def)
  then have wk: "wf_key (key (h ! this))" and eo: "entries_ok h this"
    by (simp_all add: node_ok_def)
  let ?K = "key (h ! this) @ CHR ''.'' # show_nat (length (child_entries h this))"
  have K: "getNextChildKey h this = ?K"
    by (rule getNextChildKey_entries[OF wk eo])
  have "wf_key (case Some this of Some p \<Rightarrow> getNextChildKey h p | None \<Rightarrow> ''0'')"
    using K wk by (simp add: wf_key_child)
  from construct_region(1)[OF c this] have b: "built nodeData (Some this) h n h1" .
  then have n: "n = length h" and tk: "take (length h) h1 = h" and kn: "key (h1 ! n) = ?K"
    by (auto simp: built_def K)
  have "take (length h) h1 ! this = h1 ! this"
    using t by simp
  then have old: "h1 ! this = h ! this"
    by (simp add: tk)
  have "(case children (h1 ! this) of
           Some cs \<Rightarrow> AList.update (key (h1 ! n)) n cs
         | None \<Rightarrow> [(key (h1 ! n), n)]) = child_entries h this @ [(key (h1 ! length h), length h)]"
  proof (cases "children (h ! this)")
    case None
    with old n show ?thesis
      by (simp add: child_entries_def)
  next
    case (Some cs)
    then have ce: "child_entries h this = cs" by (simp add: child_entries_def)
    have "AList.update ?K n cs = cs @ [(?K, n)]"
      using entry_key_fresh[OF eo] ce by (intro update_fresh) simp
    with old n Some kn ce show ?thesis
      by simp
  qed
  with h' have "h' = h1[this := (h1 ! this)\<lparr>children :=
                  Some (child_entries h this @ [(key (h1 ! length h), length h)])\<rparr>]"
    by simp
  with b show ?thesis using kn by (rule that)
qed

lemma appendChild_inv:
  assumes "tree_inv h" "this < length h" "appendChild nodeData this h = Inr (n, h')"
  shows "tree_inv h'"
proof -
  from assms(1) have inv: "region_ok h 0" and root: "key (h ! 0) = ''0''" "parent (h ! 0) = None"
    by (simp_all add: tree_inv_def)
  from inv assms(2,3) obtain h1 where b: "built nodeData (Some this) h n h1"
    and h': "h' = h1[this := (h1 ! this)\<lparr>children :=
                  Some (child_entries h this @ [(key (h1 ! length h), length h)])\<rparr>]"
    and kn: "key (h1 ! n) = key (h ! this) @ CHR ''.'' # show_nat (length (child_entries h this))"
    by (rule appendChild_result)
  from b have n: "n = length h" and len1: "length h < length h1" and tk: "take (length h) h1 = h"
    and pn: "parent (h1 ! n) = Some this" and r1: "region_ok h1 n"
    by (auto simp: built_def)
  have "region_ok h' 0"
    unfolding h'
    by (rule attach_region[OF inv _ assms(2) tk len1]) (use r1 pn kn n in simp_all)
  moreover have "0 < length h"
    using assms(2) by arith
  then have "take (length h) h1 ! 0 = h1 ! 0"
    by simp
  then have h10: "h1 ! 0 = h ! 0"
    by (simp add: tk)
  have "key (h' ! 0) = ''0'' \<and> parent (h' ! 0) = None"
  proof (cases "this = 0")
    case True
    have "0 < length h1" using len1 by arith
    with True show ?thesis
      using root h10 by (simp add: h')
  next
    case False
    then show ?thesis
      using root h10 by (simp add: h')
  qed
  ultimately show ?thesis
    by (simp add: tree_inv_def)
qed

lemma reachable_inv: "reachable h \<Longrightarrow> tree_inv h"
proof (induction rule: reachable.induct)
  case (construct_root props root h)
  then show ?case using construct_root_inv by blast
next
  case (append_child h this nodeData n h')
  then show ?case using appendChild_inv by blast
qed

lemma tree_inv_nonempty: "tree_inv h \<Longrightarrow> 0 < length h"
  by (simp add: tree_inv_def region_ok_def)

lemma tree_inv_node:
  assumes "tree_inv h" "x < length h"
  shows "node_ok h 0 x"
  using assms by (simp add: tree_inv_def region_ok_def)

lemma tree_inv_parent:
  assumes "tree_inv h" "r < length h" "r \<noteq> 0"
  obtains p i where "parent (h ! r) = Some p" "p < r" "i < length (child_entries h p)"
    "child_entries h p ! i = (key (h ! r), r)"
    "key (h ! r) = key (h ! p) @ CHR ''.'' # show_nat i"
    "children (h ! p) = Some (child_entries h p)"
proof -
  have "attached h 0 r"
    using tree_inv_node[OF assms(1,2)] assms(3) by (simp add: node_ok_def)
  then obtain p where p: "parent (h ! r) = Some p" "p < r"
    "(key (h ! r), r) \<in> set (child_entries h p)"
    by (auto simp: attached_def)
  then obtain i where i: "i < length (child_entries h p)" "child_entries h p ! i = (key (h ! r), r)"
    by (auto simp: in_set_conv_nth)
  have "entries_ok h p"
    using tree_inv_node[OF assms(1), of p] p(2) assms(2) by (simp add: node_ok_def)
  then have "fst (child_entries h p ! i) = key (h ! p) @ CHR ''.'' # show_nat i"
    using i(1) by (simp add: entries_ok_def)
  with i(2) have k: "key (h ! r) = key (h ! p) @ CHR ''.'' # show_nat i"
    by simp
  have "children (h ! p) = Some (child_entries h p)"
    using i(1) by (auto simp: child_entries_def split: option.splits)
  then show ?thesis by (rule that[OF p(1,2) i k])
qed

lemma keys_unique:
  assumes inv: "tree_inv h"
  shows "r < length h \<Longrightarrow> r' < length h \<Longrightarrow> key (h ! r) = key (h ! r') \<Longrightarrow> r = r'"
proof (induction r arbitrary: r' rule: less_induct)
  case (less r)
  have root: "key (h ! 0) = ''0''" using inv by (simp add: tree_inv_def)
  have not_root: "key (h ! x) \<noteq> ''0''" if x: "x < length h" "x \<noteq> 0" for x
  proof -
    obtain p i where "parent (h ! x) = Some p" "p < x" "i < length (child_entries h p)"
      "child_entries h p ! i = (key (h ! x), x)"
      "key (h ! x) = key (h ! p) @ CHR ''.'' # show_nat i"
      "children (h ! p) = Some (child_entries h p)"
      by (rule tree_inv_parent[OF inv x])
    then show ?thesis
      using root_key_not_child[of "key (h ! p)" "show_nat i"] by simp
  qed
  show ?case
  proof (cases "r = 0")
    case True
    then show ?thesis
      using not_root[OF less.prems(2)] less.prems(3) root by auto
  next
    case False
    obtain p i
      where p: "parent (h ! r) = Some p" "p < r" "i < length (child_entries h p)"
        "child_entries h p ! i = (key (h ! r), r)"
        "key (h ! r) = key (h ! p) @ CHR ''.'' # show_nat i"
        "children (h ! p) = Some (child_entries h p)"
      by (rule tree_inv_parent[OF inv less.prems(1) False])
    have r'0: "r' \<noteq> 0"
    proof
      assume "r' = 0"
      with not_root[OF less.prems(1) False] less.prems(3) root show False by simp
    qed
    obtain p' i'
      where p': "parent (h ! r') = Some p'" "p' < r'" "i' < length (child_entries h p')"
        "child_entries h p' ! i' = (key (h ! r'), r')"
        "key (h ! r') = key (h ! p') @ CHR ''.'' # show_nat i'"
        "children (h ! p') = Some (child_entries h p')"
      by (rule tree_inv_parent[OF inv less.prems(2) r'0])
    have pl: "p < length h" "p' < length h"
      using p(2) p'(2) less.prems by simp_all
    have "wf_key (key (h ! p))" "wf_key (key (h ! p'))"
      using tree_inv_node[OF inv pl(1)] tree_inv_node[OF inv pl(2)] by (simp_all add: node_ok_def)
    then have ki: "key (h ! p) = key (h ! p') \<and> i = i'"
      using p(5) p'(5) less.prems(3) by (intro child_key_inj) simp_all
    then have "p = p'"
      using less.IH[OF p(2) pl] by simp
    with ki show ?thesis
      using p(4) p'(4) by simp
  qed
qed

lemma scenario_construct: "construct scenario_r None [] = Inr (0, scenario_heap)"
  by code_simp

lemma scenario_reachable: "reachable scenario_heap"
  by (rule reachable.construct_root[OF scenario_construct])

subsection \<open>The next child key\<close>


text \<open>
  C7: \<open>nextChildKey\<close> reads the store and returns a key; the store is not among its
  results, so it is left as it was.  For a node without a children object, or with an
  empty one, the key is the node's own key followed by \<open>.0\<close>.  Otherwise the key of the
  child inserted last is split at the dots; when its segments are decimal numerals, as
  they are in every key this class produces, the result is these segments with the last
  one incremented by one, joined with dots.  On a node of a reachable store this is the
  node's key followed by the number of its children, a key that no node carries yet.
\<close>

theorem getNextChildKey_spec:
  "(children (h ! this) = None \<or> children (h ! this) = Some []
      \<longrightarrow> getNextChildKey h this = key (h ! this) @ ''.0'') \<and>
   (\<forall>cs segs i.
      children (h ! this) = Some cs \<and> cs \<noteq> [] \<and>
      split_dot (fst (last cs)) = map show_nat segs @ [show_nat i]
      \<longrightarrow> getNextChildKey h this = join_dot (map show_nat segs @ [show_nat (i + 1)])) \<and>
   (reachable h \<and> this < length h \<longrightarrow>
      getNextChildKey h this = key (h ! this) @ ''.'' @ show_nat (length (childrenList h this)) \<and>
      (\<forall>r. r < length h \<longrightarrow> key (h ! r) \<noteq> getNextChildKey h this))"
proof (intro conjI impI allI)
  assume "children (h ! this) = None \<or> children (h ! this) = Some []"
  then show "getNextChildKey h this = key (h ! this) @ ''.0''"
    by (auto simp: getNextChildKey_def)
next
  fix cs segs i
  assume a: "children (h ! this) = Some cs \<and> cs \<noteq> [] \<and>
      split_dot (fst (last cs)) = map show_nat segs @ [show_nat i]"
  then have cs: "children (h ! this) = Some cs" "cs \<noteq> []"
    and sp: "split_dot (fst (last cs)) = map show_nat segs @ [show_nat i]"
    by simp_all
  have lastKey: "map fst cs ! (length (map fst cs) - 1) = fst (last cs)"
    using cs(2) by (simp add: last_conv_nth)
  have arr: "map parseInt10 (split_dot (fst (last cs))) = map (\<lambda>n. Some (int n)) (segs @ [i])"
    by (simp add: sp parseInt10_show_nat)
  have upd: "(map (\<lambda>n. Some (int n)) (segs @ [i]))
          [length (map (\<lambda>n. Some (int n)) (segs @ [i])) - 1 :=
             incr (map (\<lambda>n. Some (int n)) (segs @ [i]) ! (length (map (\<lambda>n. Some (int n)) (segs @ [i])) - 1))]
        = map (\<lambda>n. Some (int n)) (segs @ [i + 1])"
    by (simp add: nth_append incr_def list_update_append add.commute)
  have str: "map number_toString (map (\<lambda>n. Some (int n)) q) = map show_nat q" for q
    by (simp add: number_toString_def)
  have "getNextChildKey h this =
          (let keyArray = map parseInt10 (split_dot (fst (last cs)));
               keyArray' = keyArray[length keyArray - 1 := incr (keyArray ! (length keyArray - 1))]
           in join_dot (map number_toString keyArray'))"
    unfolding getNextChildKey_def cs(1) using cs(2) by (simp add: Let_def last_conv_nth)
  also have "\<dots> = join_dot (map show_nat (segs @ [i + 1]))"
    unfolding Let_def arr upd str ..
  finally show "getNextChildKey h this = join_dot (map show_nat segs @ [show_nat (i + 1)])"
    by simp
next
  assume a: "reachable h \<and> this < length h"
  then have inv: "tree_inv h" and tl: "this < length h"
    using reachable_inv by simp_all
  have nok: "node_ok h 0 this" by (rule tree_inv_node[OF inv tl])
  then have wk: "wf_key (key (h ! this))" and eo: "entries_ok h this"
    by (simp_all add: node_ok_def)
  have len: "length (childrenList h this) = length (child_entries h this)"
    by (simp add: childrenList_def child_entries_def split: option.splits)
  have K: "getNextChildKey h this
             = key (h ! this) @ CHR ''.'' # show_nat (length (child_entries h this))"
    by (rule getNextChildKey_entries[OF wk eo])
  then show "getNextChildKey h this
               = key (h ! this) @ ''.'' @ show_nat (length (childrenList h this))"
    by (simp add: len)
  fix r assume rl: "r < length h"
  show "key (h ! r) \<noteq> getNextChildKey h this"
  proof
    assume e: "key (h ! r) = getNextChildKey h this"
    have "r \<noteq> 0"
    proof
      assume "r = 0"
      with e K inv
      have "''0'' = key (h ! this) @ CHR ''.'' # show_nat (length (child_entries h this))"
        by (simp add: tree_inv_def)
      then show False
        by (rule root_key_not_child[THEN notE])
    qed
    then obtain p i where p: "parent (h ! r) = Some p" "p < r" "i < length (child_entries h p)"
      "child_entries h p ! i = (key (h ! r), r)"
      "key (h ! r) = key (h ! p) @ CHR ''.'' # show_nat i"
      "children (h ! p) = Some (child_entries h p)"
      using tree_inv_parent[OF inv rl] by blast
    have pl: "p < length h" using p(2) rl by simp
    have "wf_key (key (h ! p))"
      using tree_inv_node[OF inv pl] by (simp add: node_ok_def)
    then have ki: "key (h ! p) = key (h ! this) \<and> i = length (child_entries h this)"
      using wk p(5) e K by (intro child_key_inj) simp_all
    then have "p = this"
      using keys_unique[OF inv pl tl] by simp
    with ki p(3) show False by simp
  qed
qed

theorem getNextChildKey_spec_witness:
  "getNextChildKey scenario_heap 1 = ''0.0.0'' \<and> getNextChildKey scenario_heap 0 = ''0.2'' \<and>
   getNextChildKey scenario_heap 2 = key (scenario_heap ! 2) @ ''.'' @ show_nat 1 \<and>
   key (scenario_heap ! 3) \<noteq> getNextChildKey scenario_heap 2"
proof (intro conjI)
  have "children (scenario_heap ! 1) = None \<or> children (scenario_heap ! 1) = Some []"
    by (simp add: scenario_heap_def)
  with getNextChildKey_spec[of scenario_heap 1]
  have "getNextChildKey scenario_heap 1 = key (scenario_heap ! 1) @ ''.0''"
    by blast
  then show "getNextChildKey scenario_heap 1 = ''0.0.0''"
    by (simp add: scenario_heap_def)
next
  have c: "children (scenario_heap ! 0) = Some [(''0.0'', 1), (''0.1'', 2)]"
    by (simp add: scenario_heap_def)
  have s: "split_dot (fst (last [(''0.0'', 1::nat), (''0.1'', 2)])) = map show_nat [0] @ [show_nat 1]"
    by code_simp
  from getNextChildKey_spec[of scenario_heap 0] c s
  have "getNextChildKey scenario_heap 0 = join_dot (map show_nat [0] @ [show_nat (1 + 1)])"
    by blast
  also have "\<dots> = ''0.2''"
    by code_simp
  finally show "getNextChildKey scenario_heap 0 = ''0.2''" .
next
  have l: "reachable scenario_heap \<and> 2 < length scenario_heap"
    using scenario_reachable by (simp add: scenario_heap_def)
  note t = getNextChildKey_spec[of scenario_heap 2, THEN conjunct2, THEN conjunct2, rule_format, OF l]
  have n: "length (childrenList scenario_heap 2) = 1"
    by (simp add: childrenList_def scenario_heap_def)
  from t n show "getNextChildKey scenario_heap 2 = key (scenario_heap ! 2) @ ''.'' @ show_nat 1"
    by simp
  have "3 < length scenario_heap" by (simp add: scenario_heap_def)
  with t show "key (scenario_heap ! 3) \<noteq> getNextChildKey scenario_heap 2"
    by blast
qed


lemma construct_frame:
  "construct props par h = Inr (r, h') \<Longrightarrow>
     r = length h \<and> length h < length h' \<and> take (length h) h' = h \<and>
     data (h' ! r) = props \<and> parent (h' ! r) = par"
  "construct_children cs this h = Inr h'' \<Longrightarrow> this < length h \<Longrightarrow>
     length h \<le> length h'' \<and> take this h'' = take this h \<and>
     data (h'' ! this) = data (h ! this) \<and> parent (h'' ! this) = parent (h ! this) \<and>
     key (h'' ! this) = key (h ! this)"
proof (induction props par h and cs this h arbitrary: r h' and h''
       rule: construct_construct_children.induct)
  case (1 props par h)
  from "1.prems"(1) show ?case
  proof (cases rule: construct_cases)
    case (leaf c)
    then show ?thesis by simp
  next
    case (arr cs)
    let ?h0 = "h @ [\<lparr>key = (case par of Some p \<Rightarrow> getNextChildKey h p | None \<Rightarrow> ''0''),
                     children = Some [], data = props, parent = par\<rparr>]"
    have "length ?h0 \<le> length h' \<and> take (length h) h' = take (length h) ?h0 \<and>
          data (h' ! length h) = data (?h0 ! length h) \<and>
          parent (h' ! length h) = parent (?h0 ! length h) \<and>
          key (h' ! length h) = key (?h0 ! length h)"
      using "1.IH"[OF refl refl refl arr(1) _ refl, of h'] arr(3) by simp
    then show ?thesis
      using arr(2) by simp
  qed
next
  case (2 this h)
  then show ?case by simp
next
  case (3 child rest this h)
  from "3.prems"(1) obtain n h1 h2 where c1: "construct child (Some this) h = Inr (n, h1)"
    and s: "set_child this (key (h1 ! n)) n h1 = Inr h2"
    and c2: "construct_children rest this h2 = Inr h''"
    by (auto split: sum.splits prod.splits)
  from "3.IH"(1)[OF c1] have f1: "length h < length h1" "take (length h) h1 = h"
    by simp_all
  have tl1: "this < length h1" using "3.prems"(2) f1(1) by simp
  have "take (length h) h1 ! this = h1 ! this" using "3.prems"(2) by simp
  then have old: "h1 ! this = h ! this" by (simp add: f1(2))
  from s obtain cs where h2: "h2 = h1[this := (h1 ! this)\<lparr>children := Some cs\<rparr>]"
    by (auto simp: set_child_def split: option.splits)
  have tl2: "this < length h2" using tl1 by (simp add: h2)
  from "3.IH"(2)[OF c1 refl s c2 tl2]
  have f2: "length h2 \<le> length h''" "take this h'' = take this h2"
    "data (h'' ! this) = data (h2 ! this)" "parent (h'' ! this) = parent (h2 ! this)"
    "key (h'' ! this) = key (h2 ! this)"
    by simp_all
  have "take this h2 = take this h1" by (simp add: h2)
  also have "\<dots> = take this (take (length h) h1)" using "3.prems"(2) by (simp add: min_def)
  finally have "take this h2 = take this h" by (simp add: f1(2))
  with f2 f1(1) tl1 old show ?case
    by (simp add: h2)
qed

lemma construct_succeeds:
  "wf_record props \<Longrightarrow> \<exists>r h'. construct props par h = Inr (r, h')"
  "list_all wf_record cs \<Longrightarrow> this < length h \<Longrightarrow> children (h ! this) \<noteq> None \<Longrightarrow>
     \<exists>h''. construct_children cs this h = Inr h''"
proof (induction props par h and cs this h rule: construct_construct_children.induct)
  case (1 props par h)
  from "1.prems" obtain fs where fs: "props = JObj fs"
    by (cases props) auto
  let ?K = "case par of Some p \<Rightarrow> getNextChildKey h p | None \<Rightarrow> ''0''"
  consider (none) "map_of fs ''children'' = None" | (undef) "map_of fs ''children'' = Some JUndefined"
    | (arr) cs where "map_of fs ''children'' = Some (JArr cs)" "list_all wf_record cs"
    using "1.prems" fs by (auto split: option.splits jv.splits)
  then show ?case
  proof cases
    case none
    then show ?thesis
      by (subst construct.simps) (simp add: fs Let_def)
  next
    case undef
    then show ?thesis
      by (subst construct.simps) (simp add: fs Let_def)
  next
    case (arr cs)
    then have g: "get_prop props ''children'' = Inr (JArr cs)"
      by (simp add: fs)
    let ?h0 = "h @ [\<lparr>key = ?K, children = Some [], data = props, parent = par\<rparr>]"
    have "\<exists>h''. construct_children cs (length h) ?h0 = Inr h''"
      using "1.IH"[OF refl refl refl g _ refl] arr(2) by simp
    then show ?thesis
      using g by (subst construct.simps) (auto simp: Let_def)
  qed
next
  case (2 this h)
  then show ?case by simp
next
  case (3 child rest this h)
  from "3.prems"(1) have w: "wf_record child" "list_all wf_record rest" by simp_all
  from "3.IH"(1)[OF w(1)] obtain n h1 where c1: "construct child (Some this) h = Inr (n, h1)"
    by blast
  from construct_frame(1)[OF c1] have f1: "length h < length h1" "take (length h) h1 = h"
    by simp_all
  have "take (length h) h1 ! this = h1 ! this" using "3.prems"(2) by simp
  then have old: "h1 ! this = h ! this" by (simp add: f1(2))
  with "3.prems"(3) obtain cs where cs: "children (h1 ! this) = Some cs" by auto
  define h2 where "h2 = h1[this := (h1 ! this)\<lparr>children := Some (AList.update (key (h1 ! n)) n cs)\<rparr>]"
  have s: "set_child this (key (h1 ! n)) n h1 = Inr h2"
    using cs by (simp add: set_child_def h2_def)
  have "this < length h2" "children (h2 ! this) \<noteq> None"
    using "3.prems"(2) f1(1) by (simp_all add: h2_def)
  from "3.IH"(2)[OF c1 refl s w(2) this]
  obtain h'' where "construct_children rest this h2 = Inr h''" by blast
  with c1 s show ?case by simp
qed

lemma scenario_append: "appendChild scenario_b 1 scenario_heap = Inr (4, scenario_heap_appended)"
  by code_simp

subsection \<open>The cells of a store are the root and its descendants\<close>

lemma childrenList_entries: "childrenList h this = map snd (child_entries h this)"
  by (simp add: childrenList_def child_entries_def split: option.splits)

lemma descendant_of_snoc:
  "descendant_of h x p \<Longrightarrow> c \<in> set (childrenList h p) \<Longrightarrow> descendant_of h x c"
proof (induction rule: descendant_of.induct)
  case (child c0 x)
  from child.prems have "descendant_of h c0 c" by (rule descendant_of.child)
  with child.hyps show ?case by (rule descendant_of.deeper)
next
  case (deeper c0 x d)
  from deeper.prems have "descendant_of h c0 c" by (rule deeper.IH)
  with deeper.hyps(1) show ?case by (rule descendant_of.deeper)
qed

lemma cells_are_descendants:
  assumes inv: "tree_inv h"
  shows "r < length h \<Longrightarrow> r \<noteq> 0 \<Longrightarrow> descendant_of h 0 r"
proof (induction r rule: less_induct)
  case (less r)
  obtain p i where p: "parent (h ! r) = Some p" "p < r" "i < length (child_entries h p)"
    "child_entries h p ! i = (key (h ! r), r)"
    "key (h ! r) = key (h ! p) @ CHR ''.'' # show_nat i"
    "children (h ! p) = Some (child_entries h p)"
    by (rule tree_inv_parent[OF inv less.prems])
  have "child_entries h p ! i \<in> set (child_entries h p)"
    using p(3) by (rule nth_mem)
  then have "snd (key (h ! r), r) \<in> snd ` set (child_entries h p)"
    unfolding p(4) by (rule imageI)
  then have c: "r \<in> set (childrenList h p)"
    by (simp add: childrenList_entries)
  show ?case
  proof (cases "p = 0")
    case True
    with c show ?thesis by (simp add: descendant_of.child)
  next
    case False
    have "descendant_of h 0 p"
      using less.IH[OF p(2)] p(2) less.prems(1) False by simp
    then show ?thesis using c by (rule descendant_of_snoc)
  qed
qed

lemma descendants_are_cells:
  assumes inv: "tree_inv h"
  shows "descendant_of h x d \<Longrightarrow> x < length h \<Longrightarrow> x < d \<and> d < length h"
proof (induction rule: descendant_of.induct)
  case (child c x)
  have "entries_ok h x" using tree_inv_node[OF inv child.prems] by (simp add: node_ok_def)
  moreover from child.hyps obtain e where "e \<in> set (child_entries h x)" "c = snd e"
    by (auto simp: childrenList_entries)
  ultimately show ?case
    using entries_ok_bounds[of h x e] by simp
next
  case (deeper c x d)
  have "entries_ok h x" using tree_inv_node[OF inv deeper.prems] by (simp add: node_ok_def)
  moreover from deeper.hyps(1) obtain e where "e \<in> set (child_entries h x)" "c = snd e"
    by (auto simp: childrenList_entries)
  ultimately have "x < c \<and> c < length h"
    using entries_ok_bounds[of h x e] by simp
  with deeper.IH show ?case by simp
qed

text \<open>
  C5: in every store reachable by construction and \<open>appendChild\<close>, the root has key
  \<open>0\<close> and no parent; every other node has a parent, sits at some position \<open>i\<close> of the
  parent's children object (whose entries are in insertion order), and its key is the
  parent's key followed by one more dot-segment, the decimal numeral of \<open>i\<close>; and no two
  nodes carry the same key.  The nodes of the tree are the cells of the store: the root,
  which is the first cell, and its descendants.
\<close>

theorem reachable_keys:
  assumes "reachable h"
  shows "h \<noteq> [] \<and> key (h ! 0) = ''0'' \<and> parent (h ! 0) = None \<and>
     (\<forall>r. r < length h \<and> r \<noteq> 0 \<longrightarrow>
        (\<exists>p cs i. parent (h ! r) = Some p \<and> p < length h \<and> children (h ! p) = Some cs \<and>
           i < length cs \<and> cs ! i = (key (h ! r), r) \<and>
           key (h ! r) = key (h ! p) @ ''.'' @ show_nat i \<and> CHR ''.'' \<notin> set (show_nat i))) \<and>
     (\<forall>p cs i. p < length h \<and> children (h ! p) = Some cs \<and> i < length cs \<longrightarrow>
        fst (cs ! i) = key (h ! p) @ ''.'' @ show_nat i \<and> snd (cs ! i) < length h \<and>
        key (h ! snd (cs ! i)) = fst (cs ! i) \<and> parent (h ! snd (cs ! i)) = Some p) \<and>
     (\<forall>r r'. r < length h \<and> r' < length h \<and> key (h ! r) = key (h ! r') \<longrightarrow> r = r') \<and>
     (\<forall>r. r < length h \<and> r \<noteq> 0 \<longrightarrow> descendant_of h 0 r) \<and>
     (\<forall>d. descendant_of h 0 d \<longrightarrow> d < length h \<and> d \<noteq> 0)"
proof -
  have inv: "tree_inv h" by (rule reachable_inv[OF assms])
  have 1: "h \<noteq> [] \<and> key (h ! 0) = ''0'' \<and> parent (h ! 0) = None"
    using inv tree_inv_nonempty[OF inv] by (simp add: tree_inv_def)
  have 2: "\<exists>p cs i. parent (h ! r) = Some p \<and> p < length h \<and> children (h ! p) = Some cs \<and>
           i < length cs \<and> cs ! i = (key (h ! r), r) \<and>
           key (h ! r) = key (h ! p) @ ''.'' @ show_nat i \<and> CHR ''.'' \<notin> set (show_nat i)"
    if r: "r < length h \<and> r \<noteq> 0" for r
  proof -
    from r have r1: "r < length h" and r2: "r \<noteq> 0" by simp_all
    obtain p i where p: "parent (h ! r) = Some p" "p < r" "i < length (child_entries h p)"
      "child_entries h p ! i = (key (h ! r), r)"
      "key (h ! r) = key (h ! p) @ CHR ''.'' # show_nat i"
      "children (h ! p) = Some (child_entries h p)"
      by (rule tree_inv_parent[OF inv r1 r2])
    show ?thesis
      using p r1 show_nat_no_dot[of i]
      by (intro exI[of _ p] exI[of _ "child_entries h p"] exI[of _ i]) simp
  qed
  have 3: "fst (cs ! i) = key (h ! p) @ ''.'' @ show_nat i \<and> snd (cs ! i) < length h \<and>
        key (h ! snd (cs ! i)) = fst (cs ! i) \<and> parent (h ! snd (cs ! i)) = Some p"
    if a: "p < length h \<and> children (h ! p) = Some cs \<and> i < length cs" for p cs i
  proof -
    from a have ce: "child_entries h p = cs" by (simp add: child_entries_def)
    have "entries_ok h p" using tree_inv_node[OF inv, of p] a by (simp add: node_ok_def)
    then show ?thesis using a ce by (simp add: entries_ok_def)
  qed
  have 4: "r = r'" if "r < length h \<and> r' < length h \<and> key (h ! r) = key (h ! r')" for r r'
    using keys_unique[OF inv, of r r'] that by simp
  have 5: "descendant_of h 0 r" if "r < length h \<and> r \<noteq> 0" for r
    using cells_are_descendants[OF inv, of r] that by simp
  have 6: "d < length h \<and> d \<noteq> 0" if "descendant_of h 0 d" for d
    using descendants_are_cells[OF inv that] tree_inv_nonempty[OF inv] by simp
  from 1 2 3 4 5 6 show ?thesis by blast
qed

theorem reachable_keys_witness:
  "key (scenario_heap ! 0) = ''0'' \<and> parent (scenario_heap ! 0) = None \<and>
   (\<exists>p cs i. parent (scenario_heap ! 3) = Some p \<and> children (scenario_heap ! p) = Some cs \<and>
      i < length cs \<and> cs ! i = (key (scenario_heap ! 3), 3) \<and>
      key (scenario_heap ! 3) = key (scenario_heap ! p) @ ''.'' @ show_nat i) \<and>
   key (scenario_heap ! 1) \<noteq> key (scenario_heap ! 2)"
proof -
  note k = reachable_keys[OF scenario_reachable]
  note k_parent = k[THEN conjunct2, THEN conjunct2, THEN conjunct2, THEN conjunct1, rule_format]
  note k_unique = k[THEN conjunct2, THEN conjunct2, THEN conjunct2, THEN conjunct2, THEN conjunct2,
                    THEN conjunct1, rule_format]
  have l: "length scenario_heap = 4" by (simp add: scenario_heap_def)
  have "key (scenario_heap ! 0) = ''0''" "parent (scenario_heap ! 0) = None"
    using k by simp_all
  moreover have "\<exists>p cs i. parent (scenario_heap ! 3) = Some p \<and>
      p < length scenario_heap \<and> children (scenario_heap ! p) = Some cs \<and>
      i < length cs \<and> cs ! i = (key (scenario_heap ! 3), 3) \<and>
      key (scenario_heap ! 3) = key (scenario_heap ! p) @ ''.'' @ show_nat i \<and>
      CHR ''.'' \<notin> set (show_nat i)"
    by (rule k_parent) (simp add: l)
  then have "\<exists>p cs i. parent (scenario_heap ! 3) = Some p \<and> children (scenario_heap ! p) = Some cs \<and>
      i < length cs \<and> cs ! i = (key (scenario_heap ! 3), 3) \<and>
      key (scenario_heap ! 3) = key (scenario_heap ! p) @ ''.'' @ show_nat i"
    by blast
  moreover have "key (scenario_heap ! 1) \<noteq> key (scenario_heap ! 2)"
  proof
    assume "key (scenario_heap ! 1) = key (scenario_heap ! 2)"
    with l have "(1::nat) = 2" by (intro k_unique) simp
    then show False by simp
  qed
  ultimately show ?thesis by blast
qed

section \<open>\<open>appendChild\<close> and the data of a node\<close>

lemma appendChild_succeeds:
  assumes "wf_record nodeData"
  shows "\<exists>n h'. appendChild nodeData this h = Inr (n, h')"
proof -
  from construct_succeeds(1)[OF assms] obtain n h1
    where "construct nodeData (Some this) h = Inr (n, h1)" by blast
  then show ?thesis
    by (cases "children (h1 ! this)") (simp_all add: appendChild_def)
qed

text \<open>
  C6: on a node of a reachable store, \<open>appendChild\<close> of a well-formed record returns; and
  when \<open>appendChild(d)\<close> returns \<open>n\<close>, \<open>n\<close> is a new cell whose parent is the node, the
  node's children object (created if it was absent) maps the key of \<open>n\<close> to \<open>n\<close>, the
  node's \<open>childrenList\<close> is the former one with \<open>n\<close> added last, and no other cell of the
  store has changed.
\<close>

theorem appendChild_spec:
  assumes "reachable h" "this < length h"
  shows "(wf_record nodeData \<longrightarrow> (\<exists>n h'. appendChild nodeData this h = Inr (n, h'))) \<and>
         (\<forall>n h'. appendChild nodeData this h = Inr (n, h') \<longrightarrow>
            n = length h \<and> n < length h' \<and> parent (h' ! n) = Some this \<and>
            (\<exists>cs'. children (h' ! this) = Some cs' \<and> map_of cs' (key (h' ! n)) = Some n) \<and>
            childrenList h' this = childrenList h this @ [n] \<and>
            key (h' ! this) = key (h ! this) \<and> data (h' ! this) = data (h ! this) \<and>
            parent (h' ! this) = parent (h ! this) \<and>
            (\<forall>x. x < length h \<and> x \<noteq> this \<longrightarrow> h' ! x = h ! x) \<and>
            reachable h')"
proof (intro conjI allI impI)
  assume "wf_record nodeData"
  then show "\<exists>n h'. appendChild nodeData this h = Inr (n, h')"
    by (rule appendChild_succeeds)
next
  fix n h' assume a: "appendChild nodeData this h = Inr (n, h')"
  have inv: "tree_inv h" by (rule reachable_inv[OF assms(1)])
  then have reg: "region_ok h 0" by (simp add: tree_inv_def)
  from reg assms(2) a obtain h1 where b: "built nodeData (Some this) h n h1"
    and h': "h' = h1[this := (h1 ! this)\<lparr>children :=
                  Some (child_entries h this @ [(key (h1 ! length h), length h)])\<rparr>]"
    and kn: "key (h1 ! n) = key (h ! this) @ CHR ''.'' # show_nat (length (child_entries h this))"
    by (rule appendChild_result)
  from b have n: "n = length h" and len1: "length h < length h1" and tk: "take (length h) h1 = h"
    and pn: "parent (h1 ! n) = Some this"
    by (auto simp: built_def)
  have old: "h1 ! y = h ! y" if "y < length h" for y
  proof -
    have "take (length h) h1 ! y = h1 ! y" using that by simp
    then show ?thesis by (simp add: tk)
  qed
  have tl1: "this < length h1" using assms(2) len1 by simp
  have nt: "n \<noteq> this" using assms(2) n by simp
  have hn: "h' ! n = h1 ! n" using nt by (simp add: h')
  have ce': "children (h' ! this) = Some (child_entries h this @ [(key (h1 ! n), n)])"
    using tl1 n by (simp add: h')
  have eo: "entries_ok h this"
    using tree_inv_node[OF inv assms(2)] by (simp add: node_ok_def)
  show "n = length h" by (rule n)
  show "n < length h'" using len1 n by (simp add: h')
  show "parent (h' ! n) = Some this" using hn pn by simp
  show "\<exists>cs'. children (h' ! this) = Some cs' \<and> map_of cs' (key (h' ! n)) = Some n"
  proof (intro exI conjI)
    show "children (h' ! this) = Some (child_entries h this @ [(key (h1 ! n), n)])" by (rule ce')
    have "map_of (child_entries h this) (key (h1 ! n)) = None"
      using entry_key_fresh[OF eo] kn by (simp add: map_of_eq_None_iff)
    then show "map_of (child_entries h this @ [(key (h1 ! n), n)]) (key (h' ! n)) = Some n"
      using hn by (simp add: map_add_def)
  qed
  show "childrenList h' this = childrenList h this @ [n]"
    using ce' by (simp add: childrenList_entries child_entries_def)
  show "key (h' ! this) = key (h ! this)" "data (h' ! this) = data (h ! this)"
    "parent (h' ! this) = parent (h ! this)"
    using tl1 old[OF assms(2)] by (simp_all add: h')
  show "h' ! x = h ! x" if "x < length h \<and> x \<noteq> this" for x
    using that old[of x] by (simp add: h')
  show "reachable h'"
    by (rule reachable.append_child[OF assms a])
qed

theorem appendChild_spec_witness:
  "appendChild scenario_b 1 scenario_heap = Inr (4, scenario_heap_appended) \<and>
   parent (scenario_heap_appended ! 4) = Some 1 \<and>
   childrenList scenario_heap_appended 1 = childrenList scenario_heap 1 @ [4] \<and>
   reachable scenario_heap_appended"
proof -
  have l: "1 < length scenario_heap" by (simp add: scenario_heap_def)
  note s = appendChild_spec[OF scenario_reachable l, of scenario_b, THEN conjunct2, rule_format,
             OF scenario_append]
  from s scenario_append show ?thesis by simp
qed

lemma data_update_children: "map data (h[i := (h ! i)\<lparr>children := c\<rparr>]) = map data h"
proof (rule nth_equalityI)
  fix j assume "j < length (map data (h[i := (h ! i)\<lparr>children := c\<rparr>]))"
  then show "map data (h[i := (h ! i)\<lparr>children := c\<rparr>]) ! j = map data h ! j"
    by (cases "j = i") simp_all
qed simp

lemma construct_data:
  "construct props par h = Inr (r, h') \<Longrightarrow> map data h' = map data h @ subrecords props"
  "construct_children cs this h = Inr h'' \<Longrightarrow> this < length h \<Longrightarrow>
     map data h'' = map data h @ concat (map subrecords cs)"
proof (induction props par h and cs this h arbitrary: r h' and h''
       rule: construct_construct_children.induct)
  case (1 props par h)
  from "1.prems"(1) show ?case
  proof (cases rule: construct_cases)
    case (leaf c)
    then have "subrecords props = [props]"
      by (subst subrecords.simps) (cases c; simp)
    with leaf show ?thesis by simp
  next
    case (arr cs)
    have "subrecords props = props # concat (map subrecords cs)"
      by (subst subrecords.simps) (simp add: arr(1))
    moreover have "map data h' =
        map data (h @ [\<lparr>key = (case par of Some p \<Rightarrow> getNextChildKey h p | None \<Rightarrow> ''0''),
                          children = Some [], data = props, parent = par\<rparr>])
        @ concat (map subrecords cs)"
      using "1.IH"[OF refl refl refl arr(1) _ refl, of h'] arr(3) by simp
    ultimately show ?thesis by simp
  qed
next
  case (2 this h)
  then show ?case by simp
next
  case (3 child rest this h)
  from "3.prems"(1) obtain n h1 h2 where c1: "construct child (Some this) h = Inr (n, h1)"
    and s: "set_child this (key (h1 ! n)) n h1 = Inr h2"
    and c2: "construct_children rest this h2 = Inr h''"
    by (auto split: sum.splits prod.splits)
  from "3.IH"(1)[OF c1] have d1: "map data h1 = map data h @ subrecords child" .
  from construct_frame(1)[OF c1] have f1: "length h < length h1" by simp
  from s obtain cs where h2: "h2 = h1[this := (h1 ! this)\<lparr>children := Some cs\<rparr>]"
    by (auto simp: set_child_def split: option.splits)
  have tl2: "this < length h2" using "3.prems"(2) f1 by (simp add: h2)
  have "map data h2 = map data h1"
    by (simp add: h2 data_update_children)
  with "3.IH"(2)[OF c1 refl s c2 tl2] d1 show ?case
    by simp
qed

lemma appendChild_data:
  assumes "appendChild nodeData this h = Inr (n, h')"
  shows "n = length h \<and> map data h' = map data h @ subrecords nodeData"
proof -
  from assms obtain h1 where c: "construct nodeData (Some this) h = Inr (n, h1)"
    and h': "h' = h1[this := (h1 ! this)\<lparr>children :=
           Some (case children (h1 ! this) of
                   Some cs \<Rightarrow> AList.update (key (h1 ! n)) n cs
                 | None \<Rightarrow> [(key (h1 ! n), n)])\<rparr>]"
    by (rule appendChild_cases)
  have "map data h' = map data h1"
    unfolding h' by (rule data_update_children)
  with construct_data(1)[OF c] construct_frame(1)[OF c] show ?thesis by simp
qed

lemma data_at_new_cell:
  assumes "map data h' = map data h @ subrecords props"
  shows "data (h' ! length h) = props"
proof -
  have l: "length h < length h'"
    using arg_cong[OF assms, of length] by (subst (asm) subrecords.simps) simp
  have "data (h' ! length h) = map data h' ! length h"
    using l by simp
  also have "\<dots> = subrecords props ! 0"
    by (simp add: assms nth_append)
  also have "\<dots> = props"
    by (subst subrecords.simps) simp
  finally show ?thesis .
qed

lemma scenario_subrecords:
  "subrecords scenario_r = [scenario_r, scenario_a, scenario_b, scenario_c]"
  "subrecords scenario_b = [scenario_b, scenario_c]"
  by code_simp+

text \<open>
  C4, as amended: the \<open>data\<close> of a node is the whole record it was built from, its
  \<open>children\<close> field included when it has one.  A call of the constructor on a record
  allocates one new cell for the record and one for every record nested in it under
  \<open>children\<close>, in the order of the nested constructor calls, and the data of each new
  cell is the record of its call; the data of the cells that existed is as before.  The
  same holds of \<open>appendChild\<close>, whose result is the cell of the record it was given.
\<close>

theorem data_is_input_record:
  "(construct props par h = Inr (r, h') \<longrightarrow>
      r = length h \<and> data (h' ! r) = props \<and> map data h' = map data h @ subrecords props) \<and>
   (appendChild nodeData this h = Inr (n, h'') \<longrightarrow>
      n = length h \<and> data (h'' ! n) = nodeData \<and>
      map data h'' = map data h @ subrecords nodeData)"
proof (intro conjI allI impI)
  assume c: "construct props par h = Inr (r, h')"
  then show "r = length h" "data (h' ! r) = props"
    using construct_frame(1) by blast+
  from c show "map data h' = map data h @ subrecords props"
    by (rule construct_data(1))
next
  assume a: "appendChild nodeData this h = Inr (n, h'')"
  from appendChild_data[OF a]
  show n: "n = length h" and d: "map data h'' = map data h @ subrecords nodeData"
    by simp_all
  from data_at_new_cell[OF d] n show "data (h'' ! n) = nodeData"
    by simp
qed

theorem data_is_input_record_witness:
  "data (scenario_heap_appended ! 4) = scenario_b \<and>
   map data scenario_heap_appended = map data scenario_heap @ [scenario_b, scenario_c] \<and>
   map data scenario_heap = [scenario_r, scenario_a, scenario_b, scenario_c]"
proof (intro conjI)
  note a = data_is_input_record[where this = 1 and h = scenario_heap and nodeData = scenario_b
           and n = 4 and h'' = scenario_heap_appended,
         THEN conjunct2, rule_format, OF scenario_append]
  from a show "data (scenario_heap_appended ! 4) = scenario_b"
    by simp
  from a show "map data scenario_heap_appended = map data scenario_heap @ [scenario_b, scenario_c]"
    by (simp add: scenario_subrecords)
  from data_is_input_record[where props = scenario_r and par = None and h = "[]" and r = 0
           and h' = scenario_heap, THEN conjunct1, rule_format, OF scenario_construct]
  show "map data scenario_heap = [scenario_r, scenario_a, scenario_b, scenario_c]"
    by (simp add: scenario_subrecords)
qed

text \<open>The claim C4 as the spec words it, with \<open>data\<close> holding the record minus its
  \<open>children\<close> field, fails: after \<open>appendChild\<close> of the record \<open>b\<close> of the scenario, the
  new node's data still has the \<open>children\<close> field.\<close>

theorem data_without_children_counterexample:
  "appendChild scenario_b 1 scenario_heap = Inr (4, scenario_heap_appended) \<and>
   data (scenario_heap_appended ! 4) \<noteq> without_children scenario_b \<and>
   map_of (own_props (data (scenario_heap_appended ! 4))) ''children'' = Some (JArr [scenario_c]) \<and>
   map_of (own_props (without_children scenario_b)) ''children'' = None"
  using scenario_append
  by (simp add: scenario_heap_appended_def without_children_def scenario_b_def)


section \<open>Descendants and lookup\<close>

lemma descendant_of_iff:
  "descendant_of h x d \<longleftrightarrow> (\<exists>c \<in> set (childrenList h x). d = c \<or> descendant_of h c d)"
  by (subst descendant_of.simps) blast

lemma foldl_descendants:
  assumes "\<And>c. c \<in> set cs \<Longrightarrow> D c = Some (E c)"
  shows "foldl (\<lambda>acc child.
                   case acc of
                     None \<Rightarrow> None
                   | Some ds \<Rightarrow>
                       (case D child of
                          None \<Rightarrow> None
                        | Some cd \<Rightarrow> Some ((ds @ [child]) @ cd)))
                (Some acc) cs = Some (acc @ concat (map (\<lambda>c. c # E c) cs))"
  using assms by (induction cs arbitrary: acc) simp_all

lemma descendants_total:
  assumes reg: "region_ok h a"
  shows "a \<le> x \<Longrightarrow> x < length h \<Longrightarrow> length h - x \<le> n \<Longrightarrow>
         \<exists>ds. descendants n h x = Some ds \<and> (\<forall>d. d \<in> set ds \<longleftrightarrow> descendant_of h x d) \<and>
              (\<forall>d \<in> set ds. x < d \<and> d < length h)"
proof (induction n arbitrary: x)
  case 0
  then show ?case by simp
next
  case (Suc n)
  have eo: "entries_ok h x"
    using reg Suc.prems(1,2) by (simp add: region_ok_def node_ok_def)
  show ?case
  proof (cases "children (h ! x)")
    case None
    then have "childrenList h x = []" by (simp add: childrenList_def)
    then have "\<not> descendant_of h x d" for d
      by (subst descendant_of_iff) simp
    with None show ?thesis by simp
  next
    case (Some cs)
    then have cl: "childrenList h x = map snd cs" and ce: "child_entries h x = cs"
      by (simp_all add: childrenList_def child_entries_def)
    have bounds: "x < c \<and> c < length h" if "c \<in> set (map snd cs)" for c
      using that entries_ok_bounds[OF eo] ce by auto
    have ih: "\<exists>ds. descendants n h c = Some ds \<and> (\<forall>d. d \<in> set ds \<longleftrightarrow> descendant_of h c d) \<and>
              (\<forall>d \<in> set ds. c < d \<and> d < length h)" if "c \<in> set (map snd cs)" for c
      using bounds[OF that] Suc.prems by (intro Suc.IH) linarith+
    define E where "E c = the (descendants n h c)" for c
    have E: "descendants n h c = Some (E c)" "\<And>d. d \<in> set (E c) \<longleftrightarrow> descendant_of h c d"
      "\<And>d. d \<in> set (E c) \<Longrightarrow> c < d \<and> d < length h" if "c \<in> set (map snd cs)" for c
      using ih[OF that] by (auto simp: E_def)
    let ?ds = "concat (map (\<lambda>c. c # E c) (map snd cs))"
    have "descendants (Suc n) h x = Some ([] @ ?ds)"
      unfolding descendants.simps Some option.case
      by (rule foldl_descendants) (rule E(1))
    moreover have "d \<in> set ?ds \<longleftrightarrow> descendant_of h x d" for d
    proof -
      have "d \<in> set ?ds \<longleftrightarrow> (\<exists>c \<in> set (map snd cs). d = c \<or> d \<in> set (E c))"
        by auto
      also have "\<dots> \<longleftrightarrow> (\<exists>c \<in> set (map snd cs). d = c \<or> descendant_of h c d)"
        using E(2) by blast
      also have "\<dots> \<longleftrightarrow> descendant_of h x d"
        by (subst (2) descendant_of_iff) (simp only: cl)
      finally show ?thesis .
    qed
    moreover have "x < d \<and> d < length h" if "d \<in> set ?ds" for d
    proof -
      from that obtain c where c: "c \<in> set (map snd cs)" "d = c \<or> d \<in> set (E c)"
        by auto
      with bounds[OF c(1)] E(3)[OF c(1)] show ?thesis by fastforce
    qed
    ultimately show ?thesis by simp
  qed
qed

lemma descendants_reachable:
  assumes "reachable h" "r < length h"
  shows "\<exists>ds. descendants (length h) h r = Some ds \<and>
              (\<forall>d. d \<in> set ds \<longleftrightarrow> descendant_of h r d) \<and>
              (\<forall>d \<in> set ds. r < d \<and> d < length h)"
proof -
  have "region_ok h 0" using reachable_inv[OF assms(1)] by (simp add: tree_inv_def)
  from descendants_total[OF this, of r "length h"] assms(2) show ?thesis
    by simp
qed

lemma first_of_filter:
  "(if length (filter P xs) \<noteq> 0 then Some (filter P xs ! 0) else None) = List.find P xs"
  by (induction xs) auto

lemma find_unique:
  assumes "d \<in> set xs" "P d" "\<And>y. y \<in> set xs \<Longrightarrow> P y \<Longrightarrow> y = d"
  shows "List.find P xs = Some d"
proof (cases "List.find P xs")
  case None
  with assms(1,2) show ?thesis by (auto simp: find_None_iff)
next
  case (Some y)
  then have "y \<in> set xs" "P y"
    by (auto simp: find_Some_iff in_set_conv_nth)
  with assms(3) Some show ?thesis by simp
qed

text \<open>The \<open>get\<close> of src/Tree.ts does what C3 says, on every node of a reachable store:
  the node's own key gives the node, the key of a strict descendant gives that
  descendant, and a key that no node of the subtree carries gives nothing.\<close>

lemma get_spec:
  assumes "reachable h" "r < length h"
  shows "get (length h) h r (key (h ! r)) = Some (Some r) \<and>
         (\<forall>d. descendant_of h r d \<longrightarrow> get (length h) h r (key (h ! d)) = Some (Some d)) \<and>
         (\<forall>k. key (h ! r) \<noteq> k \<and> (\<forall>d. descendant_of h r d \<longrightarrow> key (h ! d) \<noteq> k)
              \<longrightarrow> get (length h) h r k = Some None)"
proof -
  have inv: "tree_inv h" by (rule reachable_inv[OF assms(1)])
  obtain ds where ds0: "descendants (length h) h r = Some ds"
    "\<forall>d. d \<in> set ds \<longleftrightarrow> descendant_of h r d"
    "\<forall>d \<in> set ds. r < d \<and> d < length h"
    using descendants_reachable[OF assms] by blast
  note ds = ds0(1) ds0(2)[rule_format] ds0(3)[rule_format]
  have 1: "get (length h) h r (key (h ! r)) = Some (Some r)"
    by (simp add: get_def)
  have 2: "get (length h) h r (key (h ! d)) = Some (Some d)" if "descendant_of h r d" for d
  proof -
    from that have d: "d \<in> set ds" by (simp add: ds(2))
    have ne: "key (h ! r) \<noteq> key (h ! d)"
      using keys_unique[OF inv assms(2), of d] ds(3)[OF d] by auto
    have "List.find (\<lambda>node. key (h ! node) = key (h ! d)) ds = Some d"
    proof (rule find_unique[OF d refl])
      fix y assume "y \<in> set ds" "key (h ! y) = key (h ! d)"
      then show "y = d"
        using keys_unique[OF inv, of y d] ds(3) d by blast
    qed
    with ne ds(1) show ?thesis by (simp add: get_def)
  qed
  have 3: "get (length h) h r k = Some None"
    if "key (h ! r) \<noteq> k \<and> (\<forall>d. descendant_of h r d \<longrightarrow> key (h ! d) \<noteq> k)" for k
  proof -
    from that have "List.find (\<lambda>node. key (h ! node) = k) ds = None"
      by (simp add: find_None_iff ds(2))
    with that ds(1) show ?thesis by (simp add: get_def)
  qed
  from 1 2 3 show ?thesis by blast
qed

lemma get_part_000_self:
  assumes "reachable h" "r < length h"
  shows "get_part_000 (length h) h r (key (h ! r)) = Some None"
proof -
  have inv: "tree_inv h" by (rule reachable_inv[OF assms(1)])
  obtain ds where ds0: "descendants (length h) h r = Some ds"
    "\<forall>d. d \<in> set ds \<longleftrightarrow> descendant_of h r d"
    "\<forall>d \<in> set ds. r < d \<and> d < length h"
    using descendants_reachable[OF assms] by blast
  note ds = ds0(1) ds0(2)[rule_format] ds0(3)[rule_format]
  have "key (h ! d) \<noteq> key (h ! r)" if "d \<in> set ds" for d
    using keys_unique[OF inv _ assms(2), of d] ds(3)[OF that] by auto
  then have "List.find (\<lambda>node. key (h ! node) = key (h ! r)) ds = None"
    by (simp add: find_None_iff)
  with ds(1) show ?thesis by (simp add: get_part_000_def)
qed

text \<open>
  C3: the \<open>get\<close> of src/unnamed/part_000 searches the descendants only.  On the tree of
  the scenario of the spec, whose root has key \<open>0\<close>, it returns nothing when called on
  the root with the root's own key, where the claim, and the \<open>get\<close> of src/Tree.ts, give
  the root itself.  As no descendant carries the key of the node, this is so on every
  node of every reachable store.
\<close>

theorem get_part_000_misses_self:
  "key (scenario_heap ! 0) = ''0'' \<and>
   get_part_000 (length scenario_heap) scenario_heap 0 ''0'' = Some None \<and>
   get (length scenario_heap) scenario_heap 0 ''0'' = Some (Some 0) \<and>
   (reachable h \<and> r < length h \<longrightarrow>
      get_part_000 (length h) h r (key (h ! r)) = Some None \<and>
      get (length h) h r (key (h ! r)) = Some (Some r))"
proof (intro conjI impI)
  show "key (scenario_heap ! 0) = ''0''"
    by (simp add: scenario_heap_def)
  show "get_part_000 (length scenario_heap) scenario_heap 0 ''0'' = Some None"
    by code_simp
  show "get (length scenario_heap) scenario_heap 0 ''0'' = Some (Some 0)"
    by code_simp
next
  assume a: "reachable h \<and> r < length h"
  then show "get_part_000 (length h) h r (key (h ! r)) = Some None"
    by (simp add: get_part_000_self)
  show "get (length h) h r (key (h ! r)) = Some (Some r)"
    by (simp add: get_def)
qed

theorem get_part_000_misses_self_witness:
  "key (scenario_heap ! 2) = ''0.1'' \<and>
   get_part_000 (length scenario_heap) scenario_heap 2 ''0.1'' = Some None \<and>
   get (length scenario_heap) scenario_heap 2 ''0.1'' = Some (Some 2)"
proof -
  have l: "reachable scenario_heap \<and> 2 < length scenario_heap"
    using scenario_reachable by (simp add: scenario_heap_def)
  have k: "key (scenario_heap ! 2) = ''0.1''"
    by (simp add: scenario_heap_def)
  from get_part_000_misses_self[where h = scenario_heap and r = 2, THEN conjunct2, THEN conjunct2,
         THEN conjunct2, rule_format, OF l]
  show ?thesis
    by (simp add: k)
qed

section \<open>Ancestors and \<open>getPath\<close>\<close>

lemma ancestors_loop_total:
  assumes inv: "tree_inv h"
  shows "r < length h \<Longrightarrow>
         \<exists>anc. ancestors_loop h r acc = Some (acc @ anc) \<and> is_chain h r anc \<and>
               (\<forall>a \<in> set anc. a < r) \<and> (r = 0 \<longrightarrow> anc = []) \<and>
               (r \<noteq> 0 \<longrightarrow> anc \<noteq> [] \<and> last anc = 0)"
proof (induction r arbitrary: acc rule: less_induct)
  case (less r)
  show ?case
  proof (cases "r = 0")
    case True
    then have "parent (h ! r) = None" using inv by (simp add: tree_inv_def)
    then have "ancestors_loop h r acc = Some (acc @ [])"
      by (subst ancestors_loop.simps) simp
    with True \<open>parent (h ! r) = None\<close> show ?thesis
      by (intro exI[of _ "[]"]) simp
  next
    case False
    obtain p i where p: "parent (h ! r) = Some p" "p < r" "i < length (child_entries h p)"
      "child_entries h p ! i = (key (h ! r), r)"
      "key (h ! r) = key (h ! p) @ CHR ''.'' # show_nat i"
      "children (h ! p) = Some (child_entries h p)"
      by (rule tree_inv_parent[OF inv less.prems False])
    have pl: "p < length h" using p(2) less.prems by simp
    from less.IH[OF p(2) pl, of "acc @ [p]"] obtain anc
      where anc: "ancestors_loop h p (acc @ [p]) = Some ((acc @ [p]) @ anc)" "is_chain h p anc"
        "\<forall>a \<in> set anc. a < p" "p = 0 \<longrightarrow> anc = []" "p \<noteq> 0 \<longrightarrow> anc \<noteq> [] \<and> last anc = 0"
      by blast
    have "ancestors_loop h r acc = Some (acc @ p # anc)"
      using anc(1) p(1) by (subst ancestors_loop.simps) simp
    moreover have "is_chain h r (p # anc)" using p(1) anc(2) by simp
    moreover have "\<forall>a \<in> set (p # anc). a < r" using anc(3) p(2) by auto
    moreover have "last (p # anc) = 0" using anc(4,5) by (cases "p = 0") auto
    ultimately show ?thesis
      using False by (intro exI[of _ "p # anc"]) simp
  qed
qed

lemma ancestors_loop_None: "parent (h ! n) = None \<Longrightarrow> ancestors_loop h n acc = Some acc"
  by (subst ancestors_loop.simps) simp

lemma ancestors_loop_Some:
  "parent (h ! n) = Some p \<Longrightarrow> ancestors_loop h n acc = ancestors_loop h p (acc @ [p])"
  by (subst ancestors_loop.simps) simp

lemma scenario_ancestors:
  "ancestors scenario_heap 3 = Some [2, 0]" "ancestors scenario_heap 0 = Some []"
proof -
  have p: "parent (scenario_heap ! 3) = Some 2" "parent (scenario_heap ! 2) = Some 0"
    "parent (scenario_heap ! 0) = None"
    by (simp_all add: scenario_heap_def)
  show "ancestors scenario_heap 3 = Some [2, 0]"
    by (simp add: ancestors_def ancestors_loop_Some[OF p(1)] ancestors_loop_Some[OF p(2)]
          ancestors_loop_None[OF p(3)])
  show "ancestors scenario_heap 0 = Some []"
    by (simp add: ancestors_def ancestors_loop_None[OF p(3)])
qed

lemma scenario_getPath:
  "getPath scenario_heap 3 ''name'' False = Some (Inr [JStr ''b'', JStr ''c''])"
  "getPath scenario_heap 3 ''name'' True = Some (Inr [JStr ''r'', JStr ''b'', JStr ''c''])"
  unfolding getPath_def scenario_ancestors
  by (simp_all add: scenario_heap_def scenario_r_def scenario_a_def scenario_b_def scenario_c_def)

lemma get_prop_returns:
  "d \<noteq> JNull \<Longrightarrow> d \<noteq> JUndefined \<Longrightarrow> \<exists>v. get_prop d f = Inr v"
  by (cases d) (auto split: option.splits)

lemma map_props_ok:
  assumes "\<And>a. a \<in> set as \<Longrightarrow> data (h ! a) \<noteq> JNull \<and> data (h ! a) \<noteq> JUndefined"
  shows "map_props h f as = Inr (map (prop_of h f) as)"
  using assms
proof (induction as)
  case Nil
  then show ?case by simp
next
  case (Cons a as)
  then have "data (h ! a) \<noteq> JNull \<and> data (h ! a) \<noteq> JUndefined" by simp
  then obtain v where v: "get_prop (data (h ! a)) f = Inr v"
    using get_prop_returns by blast
  with Cons show ?case by (simp add: prop_of_def)
qed

lemma is_chain_unique: "is_chain h r a \<Longrightarrow> is_chain h r b \<Longrightarrow> a = b"
proof (induction a arbitrary: r b)
  case Nil
  then show ?case by (cases b) auto
next
  case (Cons p ps)
  then show ?case by (cases b) auto
qed

text \<open>
  C8: on a node of a reachable store the loop of \<open>ancestors\<close> returns the chain of parents
  up to the root, nearest first; \<open>getPath\<close> with \<open>includeRoot\<close> true is the field's values
  along that chain from the root down to the node itself, with \<open>includeRoot\<close> false the
  same without the root; on the root, with \<open>includeRoot\<close> false, it is the root's own
  value alone; no read of a field throws.  On the node with key \<open>0.1.0\<close> of the scenario
  the paths of \<open>name\<close> are \<open>b, c\<close> and \<open>r, b, c\<close>.
\<close>

theorem getPath_spec:
  "(reachable h \<and> r < length h \<longrightarrow>
      (\<exists>anc. ancestors h r = Some anc \<and> is_chain h r anc \<and>
         (r = 0 \<longrightarrow> anc = []) \<and> (r \<noteq> 0 \<longrightarrow> anc \<noteq> [] \<and> last anc = 0) \<and>
         getPath h r f True = Some (Inr (map (prop_of h f) (rev anc @ [r]))) \<and>
         getPath h r f False = Some (Inr (map (prop_of h f) (rev (butlast anc) @ [r]))) \<and>
         (r = 0 \<longrightarrow> getPath h r f False = Some (Inr [prop_of h f r])))) \<and>
   construct scenario_r None [] = Inr (0, scenario_heap) \<and>
   key (scenario_heap ! 3) = ''0.1.0'' \<and>
   getPath scenario_heap 3 ''name'' False = Some (Inr [JStr ''b'', JStr ''c'']) \<and>
   getPath scenario_heap 3 ''name'' True = Some (Inr [JStr ''r'', JStr ''b'', JStr ''c''])"
proof (intro conjI impI)
  assume a: "reachable h \<and> r < length h"
  then have inv: "tree_inv h" and rl: "r < length h"
    using reachable_inv by simp_all
  from ancestors_loop_total[OF inv rl, of "[]"] obtain anc
    where anc: "ancestors h r = Some anc" "is_chain h r anc" "\<forall>a \<in> set anc. a < r"
      "r = 0 \<longrightarrow> anc = []" "r \<noteq> 0 \<longrightarrow> anc \<noteq> [] \<and> last anc = 0"
    by (auto simp: ancestors_def)
  have nn: "data (h ! a) \<noteq> JNull \<and> data (h ! a) \<noteq> JUndefined" if "a < length h" for a
    using tree_inv_node[OF inv that] by (simp add: node_ok_def)
  have al: "a < length h" if "a \<in> set anc" for a
    using anc(3) that rl by fastforce
  have m1: "map_props h f (rev anc) = Inr (map (prop_of h f) (rev anc))"
    by (rule map_props_ok) (use al nn in auto)
  have m2: "map_props h f (rev (butlast anc)) = Inr (map (prop_of h f) (rev (butlast anc)))"
    by (rule map_props_ok) (use al nn in \<open>auto dest: in_set_butlastD\<close>)
  obtain v where v: "get_prop (data (h ! r)) f = Inr v"
    using nn[OF rl] get_prop_returns by blast
  then have pv: "prop_of h f r = v" by (simp add: prop_of_def)
  have t: "getPath h r f True = Some (Inr (map (prop_of h f) (rev anc @ [r])))"
    using anc(1) m1 v pv by (simp add: getPath_def)
  have fl: "getPath h r f False = Some (Inr (map (prop_of h f) (rev (butlast anc) @ [r])))"
    using anc(1) m2 v pv by (simp add: getPath_def)
  have "getPath h r f False = Some (Inr [prop_of h f r])" if "r = 0"
    using fl anc(4) that by simp
  with anc t fl
  show "\<exists>anc. ancestors h r = Some anc \<and> is_chain h r anc \<and>
         (r = 0 \<longrightarrow> anc = []) \<and> (r \<noteq> 0 \<longrightarrow> anc \<noteq> [] \<and> last anc = 0) \<and>
         getPath h r f True = Some (Inr (map (prop_of h f) (rev anc @ [r]))) \<and>
         getPath h r f False = Some (Inr (map (prop_of h f) (rev (butlast anc) @ [r]))) \<and>
         (r = 0 \<longrightarrow> getPath h r f False = Some (Inr [prop_of h f r]))"
    by (intro exI[of _ anc]) simp
next
  show "construct scenario_r None [] = Inr (0, scenario_heap)"
    by (rule scenario_construct)
  show "key (scenario_heap ! 3) = ''0.1.0''"
    by (simp add: scenario_heap_def)
  show "getPath scenario_heap 3 ''name'' False = Some (Inr [JStr ''b'', JStr ''c''])"
    by (rule scenario_getPath)
  show "getPath scenario_heap 3 ''name'' True = Some (Inr [JStr ''r'', JStr ''b'', JStr ''c''])"
    by (rule scenario_getPath)
qed

theorem getPath_spec_witness:
  "ancestors scenario_heap 3 = Some [2, 0] \<and>
   getPath scenario_heap 3 ''name'' True
     = Some (Inr (map (prop_of scenario_heap ''name'') [0, 2, 3])) \<and>
   getPath scenario_heap 3 ''name'' False
     = Some (Inr (map (prop_of scenario_heap ''name'') [2, 3])) \<and>
   getPath scenario_heap 0 ''name'' False = Some (Inr [prop_of scenario_heap ''name'' 0])"
proof -
  have l: "reachable scenario_heap \<and> 3 < length scenario_heap"
    "reachable scenario_heap \<and> 0 < length scenario_heap"
    using scenario_reachable by (simp_all add: scenario_heap_def)
  have c: "is_chain scenario_heap 3 [2, 0]"
    by (simp add: scenario_heap_def)
  from getPath_spec[where h = scenario_heap and r = 3 and f = "''name''", THEN conjunct1, rule_format, OF l(1)]
  obtain anc where anc: "ancestors scenario_heap 3 = Some anc" "is_chain scenario_heap 3 anc"
    "getPath scenario_heap 3 ''name'' True
       = Some (Inr (map (prop_of scenario_heap ''name'') (rev anc @ [3])))"
    "getPath scenario_heap 3 ''name'' False
       = Some (Inr (map (prop_of scenario_heap ''name'') (rev (butlast anc) @ [3])))"
    by blast
  have "anc = [2, 0]" by (rule is_chain_unique[OF anc(2) c])
  with anc have 1: "ancestors scenario_heap 3 = Some [2, 0]"
    "getPath scenario_heap 3 ''name'' True
       = Some (Inr (map (prop_of scenario_heap ''name'') [0, 2, 3]))"
    "getPath scenario_heap 3 ''name'' False
       = Some (Inr (map (prop_of scenario_heap ''name'') [2, 3]))"
    by simp_all
  from getPath_spec[where h = scenario_heap and r = 0 and f = "''name''", THEN conjunct1, rule_format, OF l(2)]
  have "getPath scenario_heap 0 ''name'' False = Some (Inr [prop_of scenario_heap ''name'' 0])"
    by blast
  with 1 show ?thesis by simp
qed

section \<open>The round trip\<close>

lemma those_map_Some: "those (map Some xs) = Some xs"
  by (induction xs) simp_all

lemma show_nat_not_children: "show_nat i \<noteq> ''children''"
proof
  assume "show_nat i = ''children''"
  then have "CHR ''c'' \<in> set (show_nat i)" by simp
  then have "is_digit CHR ''c''" by (rule show_nat_digits)
  then show False by (simp add: is_digit_def)
qed

lemma index_keys_not_children:
  "map_of (zip (map show_nat [0..<n]) vs) ''children'' = None"
proof -
  have "''children'' \<notin> set (map show_nat [0..<n])"
    using show_nat_not_children by (metis (no_types) imageE list.set_map)
  then show ?thesis
    by (auto simp: map_of_eq_None_iff dest: set_zip_leftD)
qed

lemma respread:
  assumes "get_prop d ''children'' = Inr (JArr vs)"
  shows "JObj (AList.update ''children'' (JArr vs) (own_props d)) = d"
proof (cases d)
  case (JObj fs)
  with assms have "map_of fs ''children'' = Some (JArr vs)"
    by (simp split: option.splits)
  with JObj show ?thesis by (simp add: update_triv)
next
  case (JArr xs)
  with assms show ?thesis by (simp add: index_keys_not_children)
next
  case (JStr s)
  with assms show ?thesis by (simp add: index_keys_not_children)
qed (use assms in auto)

lemma serialize_built:
  assumes reg: "region_ok h a"
    and dc: "\<And>x. a \<le> x \<Longrightarrow> x < length h \<Longrightarrow> data_children h x []"
  shows "a \<le> x \<Longrightarrow> x < length h \<Longrightarrow> length h - x \<le> n \<Longrightarrow> serialize n h x = Some (data (h ! x))"
proof (induction n arbitrary: x)
  case 0
  then show ?case by simp
next
  case (Suc n)
  have eo: "entries_ok h x"
    using reg Suc.prems(1,2) by (simp add: region_ok_def node_ok_def)
  show ?case
  proof (cases "children (h ! x)")
    case None
    then show ?thesis by simp
  next
    case (Some cs)
    then have ce: "child_entries h x = cs" by (simp add: child_entries_def)
    have "serialize n h c = Some (data (h ! c))" if "c \<in> set (map snd cs)" for c
    proof -
      from that entries_ok_bounds[OF eo] ce have "x < c \<and> c < length h" by auto
      with Suc.prems show ?thesis by (intro Suc.IH) linarith+
    qed
    then have "map (\<lambda>child. serialize n h child) (map snd cs)
                 = map Some (map (\<lambda>e. data (h ! snd e)) cs)"
      by simp
    then have th: "those (map (\<lambda>child. serialize n h child) (map snd cs))
                 = Some (map (\<lambda>e. data (h ! snd e)) cs)"
      by (simp only: those_map_Some)
    have "get_prop (data (h ! x)) ''children'' = Inr (JArr (map (\<lambda>e. data (h ! snd e)) cs))"
      using dc[OF Suc.prems(1,2)] Some by (simp add: data_children_def)
    from respread[OF this] show ?thesis
      unfolding serialize.simps Some option.case th by simp
  qed
qed

text \<open>
  C1: the constructor returns on every well-formed nested record, and whenever it
  returns, \<open>serialize\<close> on the tree it built (with fuel \<open>length h\<close>) returns the input
  record itself: the same fields in the same order, hence structurally equal, with the
  nesting and the order of the children kept.  A record without a \<open>children\<close> field is
  one instance.
\<close>

theorem serialize_construct:
  "(wf_record X \<longrightarrow> (\<exists>r h. construct X None [] = Inr (r, h))) \<and>
   (\<forall>r h. construct X None [] = Inr (r, h) \<longrightarrow> serialize (length h) h r = Some X) \<and>
   (\<forall>fs. map_of fs ''children'' = None \<longrightarrow>
      (\<exists>r h. construct (JObj fs) None [] = Inr (r, h) \<and>
             serialize (length h) h r = Some (JObj fs)))"
proof -
  have 1: "\<exists>r h. construct Y None [] = Inr (r, h)" if "wf_record Y" for Y
    using that by (rule construct_succeeds(1))
  have 2: "serialize (length h) h r = Some Y" if c: "construct Y None [] = Inr (r, h)" for Y r h
  proof -
    from construct_root_inv[OF c] have r: "r = 0" and inv: "tree_inv h"
      and d: "data (h ! 0) = Y" and dc: "\<forall>x<length h. data_children h x []"
      by simp_all
    have "serialize (length h) h 0 = Some (data (h ! 0))"
    proof (rule serialize_built[of h 0])
      show "region_ok h 0" using inv by (simp add: tree_inv_def)
      show "data_children h x []" if "x < length h" for x using dc that by simp
      show "0 < length h" by (rule tree_inv_nonempty[OF inv])
    qed simp_all
    with r d show ?thesis by simp
  qed
  have 3: "\<exists>r h. construct (JObj fs) None [] = Inr (r, h) \<and>
             serialize (length h) h r = Some (JObj fs)" if "map_of fs ''children'' = None" for fs
  proof -
    from that have "wf_record (JObj fs)" by simp
    from 1[OF this] 2 show ?thesis by blast
  qed
  from 1 2 3 show ?thesis by blast
qed

theorem serialize_construct_witness:
  "wf_record scenario_r \<and> construct scenario_r None [] = Inr (0, scenario_heap) \<and>
   serialize (length scenario_heap) scenario_heap 0 = Some scenario_r"
proof -
  have w: "wf_record scenario_r"
    by (simp add: scenario_r_def scenario_a_def scenario_b_def scenario_c_def)
  from serialize_construct[of scenario_r, THEN conjunct2, THEN conjunct1, rule_format,
         OF scenario_construct]
  have "serialize (length scenario_heap) scenario_heap 0 = Some scenario_r" .
  with w scenario_construct show ?thesis by simp
qed

section \<open>Search by predicate\<close>

subsection \<open>The matcher returns on the nodes of a reachable store\<close>

lemma parent_below:
  assumes "tree_inv h" "n < length h" "parent (h ! n) = Some p"
  shows "p < n"
proof (cases "n = 0")
  case True
  with assms show ?thesis by (simp add: tree_inv_def)
next
  case False
  from tree_inv_parent[OF assms(1,2) False] assms(3) show ?thesis
    by auto
qed

lemma depth_loop_total:
  assumes inv: "tree_inv h"
  shows "r < length h \<Longrightarrow> \<exists>d. depth_loop h r acc = Some d"
proof (induction r arbitrary: acc rule: less_induct)
  case (less r)
  show ?case
  proof (cases "parent (h ! r)")
    case None
    then show ?thesis by (subst depth_loop.simps) simp
  next
    case (Some p)
    from parent_below[OF inv less.prems Some] have "p < r" .
    with less.IH[of p "acc + 1"] less.prems Some show ?thesis
      by (subst depth_loop.simps) simp
  qed
qed

lemma rootNode_loop_total:
  assumes inv: "tree_inv h"
  shows "r < length h \<Longrightarrow> \<exists>d. rootNode_loop h r = Some d \<and> d < length h"
proof (induction r rule: less_induct)
  case (less r)
  show ?case
  proof (cases "parent (h ! r)")
    case None
    then show ?thesis using less.prems by (subst rootNode_loop.simps) simp
  next
    case (Some p)
    from parent_below[OF inv less.prems Some] have "p < r" .
    with less.IH[of p] less.prems Some show ?thesis
      by (subst rootNode_loop.simps) simp
  qed
qed

lemma entries_valid:
  assumes "tree_inv h" "n < length h"
  shows "list_all (\<lambda>e. snd e < length h) (child_entries h n)"
proof -
  have "entries_ok h n" using tree_inv_node[OF assms] by (simp add: node_ok_def)
  from entries_ok_bounds[OF this] show ?thesis
    by (simp add: list_all_iff)
qed

lemma delete_subset: "set (AList.delete k es) \<subseteq> set es"
  by (induction es) auto

lemma read_prop_total:
  assumes inv: "tree_inv h" and v: "valid_view h other" and fuel: "length h \<le> fuel"
  shows "\<exists>w. read_prop fuel h other k = Some w \<and> valid_view h w"
proof (cases other)
  case (T n)
  with v have n: "n < length h" by simp
  have par: "valid_view h (case parent (h ! n) of None \<Rightarrow> V JUndefined | Some p \<Rightarrow> T p)"
  proof (cases "parent (h ! n)")
    case (Some p)
    with parent_below[OF inv n Some] n show ?thesis by simp
  qed simp
  have ch: "valid_view h (case children (h ! n) of None \<Rightarrow> V JUndefined | Some cs \<Rightarrow> TM cs)"
    using entries_valid[OF inv n] by (simp add: child_entries_def split: option.splits)
  obtain d where d: "depth h n = Some d"
    using depth_loop_total[OF inv n] by (auto simp: depth_def)
  obtain r where r: "rootNode h n = Some r" "r < length h"
    using rootNode_loop_total[OF inv n] by (auto simp: rootNode_def)
  have cl: "valid_view h (TL (childrenList h n))"
    using entries_valid[OF inv n] by (simp add: childrenList_entries list_all_iff)
  obtain anc where anc: "ancestors h n = Some anc" "\<forall>a \<in> set anc. a < n"
    using ancestors_loop_total[OF inv n, of "[]"] by (auto simp: ancestors_def)
  have reg: "region_ok h 0" using inv by (simp add: tree_inv_def)
  have "length h - n \<le> fuel" using fuel by simp
  from descendants_total[OF reg _ n this]
  obtain ds where ds: "descendants fuel h n = Some ds" "\<forall>d \<in> set ds. n < d \<and> d < length h"
    by auto
  have sib: "valid_view h (case siblings h n of None \<Rightarrow> TL [] | Some es \<Rightarrow> TM es)"
  proof (cases "parent (h ! n)")
    case None
    then show ?thesis by (simp add: siblings_def)
  next
    case (Some p)
    from parent_below[OF inv n Some] n have "p < length h" by simp
    from entries_valid[OF inv this]
    have "list_all (\<lambda>e. snd e < length h) (AList.delete (key (h ! n)) (child_entries h p))"
      using delete_subset[of "key (h ! n)" "child_entries h p"] by (auto simp: list_all_iff)
    with Some show ?thesis
      by (simp add: siblings_def child_entries_def)
  qed
  define ok where "ok = (\<lambda>x. \<exists>w. x = Some w \<and> valid_view h w)"
  have facts:
    "ok (Some (V (data (h ! n))))" "ok (Some (V (JStr (key (h ! n)))))"
    "ok (Some (case parent (h ! n) of None \<Rightarrow> V JUndefined | Some p \<Rightarrow> T p))"
    "ok (Some (case children (h ! n) of None \<Rightarrow> V JUndefined | Some cs \<Rightarrow> TM cs))"
    "ok (Some (V (JBool (isRoot h n))))"
    "ok (map_option (\<lambda>d. V (JNum d)) (depth h n))"
    "ok (map_option T (rootNode h n))"
    "ok (Some (TL (childrenList h n)))"
    "ok (map_option TL (ancestors h n))"
    "ok (map_option TL (descendants fuel h n))"
    "ok (Some (case siblings h n of None \<Rightarrow> TL [] | Some es \<Rightarrow> TM es))"
    "ok (Some TProto)" "ok (Some Fn)" "ok (Some (V JUndefined))"
    using par ch d r cl anc ds sib n by (auto simp: ok_def list_all_iff)
  have "ok (read_prop fuel h (T n) k)"
    unfolding read_prop.simps by (simp only: facts if_split simp_thms)
  then show ?thesis
    by (simp add: ok_def T)
next
  case (V x)
  then show ?thesis by (cases x) (auto split: option.splits)
next
  case (TM es)
  with v show ?thesis
    by (auto split: option.splits simp: list_all_iff dest!: map_of_SomeD)
qed auto

lemma elements_valid:
  "valid_view h other \<Longrightarrow> elements other = Some ys \<Longrightarrow> list_all (valid_view h) ys"
  by (cases other rule: elements.cases) (auto simp: list_all_iff)

lemma matcher_total:
  "tree_inv h \<Longrightarrow> length h \<le> fuel \<Longrightarrow> valid_view h other \<Longrightarrow>
     baseIsEqual fuel h src other \<noteq> None"
  "tree_inv h \<Longrightarrow> length h \<le> fuel \<Longrightarrow> valid_view h other \<Longrightarrow>
     equalObjects fuel h ps other \<noteq> None"
  "tree_inv h \<Longrightarrow> length h \<le> fuel \<Longrightarrow> list_all (valid_view h) ys \<Longrightarrow>
     equalArrays fuel h xs ys seen \<noteq> None"
  "tree_inv h \<Longrightarrow> length h \<le> fuel \<Longrightarrow> list_all (valid_view h) ys \<Longrightarrow>
     arraySome fuel h x ys j seen \<noteq> None"
proof (induction fuel h src other and fuel h ps other and fuel h xs ys seen and fuel h x ys j seen
       rule: baseIsEqual_equalObjects_equalArrays_arraySome.induct)
  case (1 fuel h ps other)
  then show ?case by auto
next
  case (2 fuel h xs other)
  then show ?case
    by (auto split: option.splits dest: elements_valid)
next
  case (9 fuel h k v rest other)
  from read_prop_total[OF "9.prems"(1,3,2), of k] obtain w
    where w: "read_prop fuel h other k = Some w" "valid_view h w" by blast
  from "9.IH"(1)[OF w(1) "9.prems"(1,2) w(2)] obtain b
    where b: "baseIsEqual fuel h v w = Some b" by blast
  show ?case
  proof (cases b)
    case True
    with "9.IH"(2)[OF w(1) b _ "9.prems"] w b show ?thesis by simp
  next
    case False
    with w b show ?thesis by simp
  qed
next
  case (11 fuel h x xs ys seen)
  from "11.IH"(1)[OF "11.prems"] obtain r where r: "arraySome fuel h x ys 0 seen = Some r"
    by blast
  show ?case
  proof (cases r)
    case None
    with r show ?thesis by simp
  next
    case (Some j)
    with "11.IH"(2)[OF _ _ "11.prems"] r show ?thesis by simp
  qed
next
  case (13 fuel h x y ys j seen)
  from "13.prems"(3) have vy: "valid_view h y" and vys: "list_all (valid_view h) ys"
    by simp_all
  show ?case
  proof (cases "j \<in> set seen")
    case True
    with "13.IH"(1)[OF True "13.prems"(1,2) vys] show ?thesis by simp
  next
    case False
    from "13.IH"(2)[OF False "13.prems"(1,2) vy] obtain b
      where b: "baseIsEqual fuel h x y = Some b" by blast
    show ?thesis
    proof (cases b)
      case True
      with False b show ?thesis by simp
    next
      case f: False
      with "13.IH"(3)[OF False b _ "13.prems"(1,2) vys] False b show ?thesis by simp
    qed
  qed
qed simp_all

lemma baseIsMatch_first_total:
  assumes "tree_inv h" "length h \<le> fuel" "valid_view h other"
  shows "baseIsMatch_first fuel h other ps \<noteq> None"
proof (induction ps)
  case (Cons e ps)
  obtain k v where e: "e = (k, v)" by (cases e)
  from read_prop_total[OF assms(1,3,2), of k] obtain w
    where w: "read_prop fuel h other k = Some w" by blast
  with Cons show ?case by (auto simp: e)
qed simp

lemma baseIsMatch_second_total:
  assumes "tree_inv h" "length h \<le> fuel" "valid_view h other"
  shows "baseIsMatch_second fuel h other ps \<noteq> None"
proof (induction ps)
  case (Cons e ps)
  obtain k v where e: "e = (k, v)" by (cases e)
  from read_prop_total[OF assms(1,3,2), of k] obtain w
    where w: "read_prop fuel h other k = Some w" "valid_view h w" by blast
  from matcher_total(1)[OF assms(1,2) w(2), of v] obtain b
    where b: "baseIsEqual fuel h v w = Some b" by blast
  show ?case
  proof (cases "isStrictComparable v")
    case True
    with Cons w show ?thesis by (auto simp: e)
  next
    case False
    with Cons w b show ?thesis by (cases b) (auto simp: e)
  qed
qed simp

lemma isMatch_total:
  assumes "tree_inv h" "length h \<le> fuel" "n < length h"
  shows "isMatch fuel h n p \<noteq> None"
proof -
  have v: "valid_view h (T n)" using assms(3) by simp
  from baseIsMatch_first_total[OF assms(1,2) v] baseIsMatch_second_total[OF assms(1,2) v]
  show ?thesis
    by (auto simp: isMatch_def Let_def split: option.splits)
qed

lemma filter_nodes_total:
  assumes "\<And>x. x \<in> set xs \<Longrightarrow> f x = Some (m x)"
  shows "filter_nodes f xs = Some (filter m xs)"
  using assms by (induction xs) simp_all

subsection \<open>What the matcher decides\<close>













lemma first_of_filter_nodes:
  assumes "\<And>x. x \<in> set xs \<Longrightarrow> f x = Some (m x)"
  shows "(case filter_nodes f xs of
            None \<Rightarrow> None
          | Some result \<Rightarrow> Some (if length result \<noteq> 0 then Some (result ! 0) else None))
         = Some (List.find m xs)"
proof -
  have "filter_nodes f xs = Some (filter m xs)"
    by (rule filter_nodes_total) (rule assms)
  then show ?thesis
    by (simp only: option.case first_of_filter)
qed

subsection \<open>The scenario\<close>

lemma scenario_lists:
  "childrenList scenario_heap 0 = [1, 2]"
  "descendants (length scenario_heap) scenario_heap 0 = Some [1, 2, 3]"
  by code_simp+






text \<open>
  C9: on every node of a reachable store and for every argument, \<open>get\<close>, \<open>findOneChild\<close>
  and \<open>findOneDescendant\<close> return (the fuel \<open>length h\<close> suffices, and their results have
  no error value): \<open>get\<close> gives the first node with the key among the node itself and
  then its descendants in \<open>descendants\<close> order, \<open>findOneChild\<close> the first matching child
  in \<open>childrenList\<close> order, \<open>findOneDescendant\<close> the first matching descendant; each gives
  nothing when none matches.  The matcher itself returns on every node, whatever the
  predicate.
\<close>

theorem lookups_return:
  assumes "reachable h" "r < length h"
  shows "\<exists>ds. descendants (length h) h r = Some ds \<and>
           get (length h) h r k = Some (List.find (\<lambda>n. key (h ! n) = k) (r # ds)) \<and>
           (\<forall>n < length h. isMatch (length h) h n p \<noteq> None) \<and>
           findOneChild (length h) h r p
             = Some (List.find (\<lambda>n. isMatch (length h) h n p = Some True) (childrenList h r)) \<and>
           findOneDescendant (length h) h r p
             = Some (List.find (\<lambda>n. isMatch (length h) h n p = Some True) ds)"
proof -
  have inv: "tree_inv h" by (rule reachable_inv[OF assms(1)])
  obtain ds where ds0: "descendants (length h) h r = Some ds"
    "\<forall>d. d \<in> set ds \<longleftrightarrow> descendant_of h r d"
    "\<forall>d \<in> set ds. r < d \<and> d < length h"
    using descendants_reachable[OF assms] by blast
  note ds = ds0(1) ds0(2)[rule_format] ds0(3)[rule_format]
  have tot: "isMatch (length h) h n p \<noteq> None" if "n < length h" for n
    by (rule isMatch_total[OF inv order_refl that])
  have verdict: "isMatch (length h) h n p = Some (isMatch (length h) h n p = Some True)"
    if "n < length h" for n
    using tot[OF that] by auto
  have cl: "x < length h" if "x \<in> set (childrenList h r)" for x
    using entries_valid[OF inv assms(2)] that by (auto simp: childrenList_entries list_all_iff)
  have "get (length h) h r k = Some (List.find (\<lambda>n. key (h ! n) = k) (r # ds))"
    using ds(1) by (simp add: get_def)
  moreover have "findOneChild (length h) h r p
      = Some (List.find (\<lambda>n. isMatch (length h) h n p = Some True) (childrenList h r))"
    unfolding findOneChild_def findAllChildren_def
    by (rule first_of_filter_nodes) (rule verdict[OF cl])
  moreover have "findOneDescendant (length h) h r p
      = Some (List.find (\<lambda>n. isMatch (length h) h n p = Some True) ds)"
    unfolding findOneDescendant_def findAllDescendants_def ds(1) option.case
    by (rule first_of_filter_nodes) (use ds(3) verdict in blast)
  ultimately show ?thesis using ds(1) tot by blast
qed

theorem lookups_return_witness:
  "get (length scenario_heap) scenario_heap 0 ''0.1.0'' = Some (Some 3) \<and>
   get (length scenario_heap) scenario_heap 0 ''0.7'' = Some None \<and>
   findOneChild (length scenario_heap) scenario_heap 0 (JObj [(''key'', JStr ''0.1'')])
     = Some (Some 2) \<and>
   findOneDescendant (length scenario_heap) scenario_heap 0 (JObj [(''key'', JStr ''0.9'')])
     = Some None"
proof -
  have l: "0 < length scenario_heap" by (simp add: scenario_heap_def)
  note t = lookups_return[OF scenario_reachable l]
  have g1: "List.find (\<lambda>n. key (scenario_heap ! n) = ''0.1.0'') [0, 1, 2, 3] = Some 3"
    and g2: "List.find (\<lambda>n. key (scenario_heap ! n) = ''0.7'') [0, 1, 2, 3] = None"
    and f1: "List.find (\<lambda>n. isMatch (length scenario_heap) scenario_heap n
                                 (JObj [(''key'', JStr ''0.1'')]) = Some True) [1, 2] = Some 2"
    and f2: "List.find (\<lambda>n. isMatch (length scenario_heap) scenario_heap n
                                 (JObj [(''key'', JStr ''0.9'')]) = Some True) [1, 2, 3] = None"
    by code_simp+
  from t[of "''0.1.0''" JNull] have "get (length scenario_heap) scenario_heap 0 ''0.1.0''
      = Some (List.find (\<lambda>n. key (scenario_heap ! n) = ''0.1.0'') [0, 1, 2, 3])"
    by (auto simp: scenario_lists)
  moreover from t[of "''0.7''" JNull] have "get (length scenario_heap) scenario_heap 0 ''0.7''
      = Some (List.find (\<lambda>n. key (scenario_heap ! n) = ''0.7'') [0, 1, 2, 3])"
    by (auto simp: scenario_lists)
  moreover from t[of "[]" "JObj [(''key'', JStr ''0.1'')]"]
  have "findOneChild (length scenario_heap) scenario_heap 0 (JObj [(''key'', JStr ''0.1'')])
      = Some (List.find (\<lambda>n. isMatch (length scenario_heap) scenario_heap n
                                 (JObj [(''key'', JStr ''0.1'')]) = Some True) [1, 2])"
    by (auto simp only: scenario_lists)
  moreover from t[of "[]" "JObj [(''key'', JStr ''0.9'')]"]
  have "findOneDescendant (length scenario_heap) scenario_heap 0 (JObj [(''key'', JStr ''0.9'')])
      = Some (List.find (\<lambda>n. isMatch (length scenario_heap) scenario_heap n
                                 (JObj [(''key'', JStr ''0.9'')]) = Some True) [1, 2, 3])"
    by (auto simp only: scenario_lists)
  ultimately show ?thesis
    by (simp only: g1 g2 f1 f2 simp_thms)
qed




end
